theory Spec2Isabelle
  imports Main "HOL-Library.Multiset"
begin

section \<open>Go slices over an explicit store\<close>

text \<open>
  The resolver of \<^verbatim>\<open>plugins/inputs/gnmi/fileConfigInjector.go\<close> copies a
  \<^verbatim>\<open>SharedConfig\<close> struct out of the inventory and then calls \<^verbatim>\<open>append\<close> on its
  slice fields. A Go struct copy copies the slice headers only, so the copy and the
  inventory entry describe the same backing array. Slices are therefore modelled as
  headers over a store of backing arrays.

  A header is the address of the backing array, the length and the capacity. The nil
  slice is the header with all three zero.
\<close>

record slice =
  arr :: nat
  len :: nat
  cap :: nat

definition nil_slice :: slice where
  "nil_slice = \<lparr>arr = 0, len = 0, cap = 0\<rparr>"

text \<open>
  A store maps the address of a backing array to the cells of that array that hold a value
  so far; \<open>fresh\<close> is the next address the allocator hands out. Cells past the recorded
  ones hold Go's zero value; the code below writes such a cell before any header reaches it.
\<close>

record 'a store =
  cells :: "nat \<Rightarrow> 'a list"
  fresh :: nat

definition elems :: "'a store \<Rightarrow> slice \<Rightarrow> 'a list" where
  "elems st s = take (len s) (cells st (arr s))"

text \<open>
  Writing cell \<open>i\<close> of an array: the recorded cell is replaced, and the first cell that
  is not recorded yet becomes recorded.
\<close>

definition put :: "'a list \<Rightarrow> nat \<Rightarrow> 'a \<Rightarrow> 'a list" where
  "put cs i x = take i cs @ x # drop (Suc i) cs"

text \<open>
  Go's built-in \<^verbatim>\<open>append(s, x)\<close>. With spare capacity the element is written into the
  backing array of \<open>s\<close> at index \<open>len s\<close>, in place, and the result shares that array.
  Otherwise a new array is allocated, the elements of \<open>s\<close> are copied and \<open>x\<close> is added.
  The capacity of a new array is chosen by the runtime: \<open>slack n\<close> is the number of spare
  cells it adds when a slice of length \<open>n\<close> grows.
\<close>

definition go_append :: "(nat \<Rightarrow> nat) \<Rightarrow> 'a store \<Rightarrow> slice \<Rightarrow> 'a \<Rightarrow> 'a store \<times> slice" where
  "go_append slack st s x =
     (if len s < cap s
      then (st\<lparr>cells := (cells st)(arr s := put (cells st (arr s)) (len s) x)\<rparr>,
            s\<lparr>len := len s + 1\<rparr>)
      else (\<lparr>cells = (cells st)(fresh st := elems st s @ [x]), fresh = fresh st + 1\<rparr>,
            \<lparr>arr = fresh st, len = len s + 1, cap = len s + 1 + slack (len s)\<rparr>))"

text \<open>The loop \<^verbatim>\<open>for _, x := range xs { s = append(s, x) }\<close>.\<close>

fun append_each :: "(nat \<Rightarrow> nat) \<Rightarrow> 'a store \<Rightarrow> slice \<Rightarrow> 'a list \<Rightarrow> 'a store \<times> slice" where
  "append_each slack st s [] = (st, s)"
| "append_each slack st s (x # xs) =
     (case go_append slack st s x of (st', s') \<Rightarrow> append_each slack st' s' xs)"

section \<open>Data model\<close>

text \<open>
  The structs of the source file. The declarations of \<^verbatim>\<open>subscription\<close>,
  \<^verbatim>\<open>tagSubscription\<close> and \<^verbatim>\<open>SharedConfig\<close> are in another file of the package; the first
  two are type parameters, and of \<^verbatim>\<open>SharedConfig\<close> the three slice fields that the
  resolver reads and writes are modelled. Slices and maps that the resolver only reads
  (the device list, the ID lists, the tag maps, the shared subscription lists) are held by
  value: a string list, or a map \<open>string \<rightharpoonup> _\<close> in which a nil map is the empty map.
\<close>

type_synonym tag_map = "string \<rightharpoonup> string"

record SharedConfig =
  Subscriptions :: slice
  TagSubscriptions :: slice
  Addresses :: slice

definition zero_SharedConfig :: SharedConfig where
  "zero_SharedConfig =
     \<lparr>Subscriptions = nil_slice, TagSubscriptions = nil_slice, Addresses = nil_slice\<rparr>"

record DeviceTag =
  sharedTagIds :: "string list"
  tags :: tag_map

record Device =
  DeviceID :: string
  Address :: string
  dev_Subscriptions :: "string list"
  dev_TagSubscriptions :: "string list"
  dev_SharedConfig :: string
  SharedTagGroups :: "string list"
  Tags :: tag_map

record 'sub Subscription =
  sub_Id :: string
  subscription :: 'sub

record 'tsub TagSubscription =
  tsub_ID :: string
  tagSubscription :: 'tsub

record ('sub, 'tsub) InputData =
  shared_Subscriptions :: "string \<rightharpoonup> 'sub Subscription list"
  shared_TagSubscriptions :: "string \<rightharpoonup> 'tsub TagSubscription list"
  SharedCommonConfigs :: "string \<rightharpoonup> SharedConfig"
  SharedTags :: "string \<rightharpoonup> tag_map"
  Devices :: "Device list"

text \<open>The memory that holds the backing arrays of the three slice fields.\<close>

record ('sub, 'tsub) heap =
  subscription_arrays :: "'sub store"
  tagSubscription_arrays :: "'tsub store"
  string_arrays :: "string store"

section \<open>groupDevices\<close>

text \<open>
  The grouping key is \<^verbatim>\<open>fmt.Sprintf("%v|%v|%v", device.Subscriptions, device.SharedConfig,
  device.TagSubscriptions)\<close>. The verb \<^verbatim>\<open>%v\<close> prints a string as it is and a slice of
  strings as its elements separated by one space, between square brackets.
\<close>

fun join_space :: "string list \<Rightarrow> string" where
  "join_space [] = []"
| "join_space [x] = x"
| "join_space (x # y # ys) = x @ CHR '' '' # join_space (y # ys)"

definition fmt_strings :: "string list \<Rightarrow> string" where
  "fmt_strings xs = CHR ''['' # join_space xs @ '']''"

definition groupKey :: "Device \<Rightarrow> string" where
  "groupKey device =
     fmt_strings (dev_Subscriptions device) @ ''|'' @ dev_SharedConfig device @ ''|''
       @ fmt_strings (dev_TagSubscriptions device)"

definition warn_subscription :: "string \<Rightarrow> string" where
  "warn_subscription key = ''Subscription key '' @ key @ '' not found in shared subscriptions''"

definition warn_tag_subscription :: "string \<Rightarrow> string" where
  "warn_tag_subscription key =
     ''Tag subscription key '' @ key @ '' not found in shared tag subscriptions''"

text \<open>
  The two inner range statements have the same shape: for each key of the device, append the payload
  of every entry of the shared list stored under the key, or log a warning when the key is
  absent. \<open>warn\<close> formats the warning and \<open>payload\<close> selects the embedded struct.
  The logger is the list of the messages it has received; it is taken to be a logger that
  can be called.
\<close>

fun append_shared ::
  "(nat \<Rightarrow> nat) \<Rightarrow> (string \<Rightarrow> string) \<Rightarrow> ('r \<Rightarrow> 'e) \<Rightarrow> (string \<rightharpoonup> 'r list) \<Rightarrow> string list
     \<Rightarrow> 'e store \<times> slice \<times> string list \<Rightarrow> 'e store \<times> slice \<times> string list" where
  "append_shared slack warn payload shared [] acc = acc"
| "append_shared slack warn payload shared (key # keys) (st, s, lg) =
     (case shared key of
        Some sharedSubs \<Rightarrow>
          (case append_each slack st s (map payload sharedSubs) of
             (st', s') \<Rightarrow> append_shared slack warn payload shared keys (st', s', lg))
      | None \<Rightarrow> append_shared slack warn payload shared keys (st, s, lg @ [warn key]))"

text \<open>
  The variables of \<^verbatim>\<open>groupDevices\<close> while the loop runs. \<^verbatim>\<open>groupMap\<close> holds pointers, each
  to the variable \<^verbatim>\<open>thisConfig\<close> of the iteration that stored it; no two keys share a
  struct, so the map from the keys to the structs stands for the map and the structs. The
  same holds for \<^verbatim>\<open>tagMap\<close>.
\<close>

record ('sub, 'tsub) loop_state =
  groupMap :: "string \<rightharpoonup> SharedConfig"
  tagMap :: "string \<rightharpoonup> DeviceTag"
  mem :: "('sub, 'tsub) heap"
  warnings :: "string list"

text \<open>
  The map read \<^verbatim>\<open>d.SharedCommonConfigs[id]\<close>: the entry, or the zero value of the struct
  when the ID is not a key of the map.
\<close>

definition lookup_config :: "('sub, 'tsub) InputData \<Rightarrow> string \<Rightarrow> SharedConfig" where
  "lookup_config d cid =
     (case SharedCommonConfigs d cid of Some c \<Rightarrow> c | None \<Rightarrow> zero_SharedConfig)"

text \<open>
  The body of \<^verbatim>\<open>if _, exists := groupMap[key]; !exists\<close>: \<open>thisConfig\<close> is the struct copy
  of the template, extended by the two range statements and stored under the key.
\<close>

definition new_group ::
  "(nat \<Rightarrow> nat) \<Rightarrow> ('sub, 'tsub) InputData \<Rightarrow> Device \<Rightarrow> ('sub, 'tsub) loop_state
     \<Rightarrow> ('sub, 'tsub) loop_state" where
  "new_group slack d device s =
     (let thisConfig = lookup_config d (dev_SharedConfig device);
          (st1, subs1, lg1) =
             append_shared slack warn_subscription subscription (shared_Subscriptions d)
               (dev_Subscriptions device)
               (subscription_arrays (mem s), Subscriptions thisConfig, warnings s);
          (st2, tsubs2, lg2) =
             append_shared slack warn_tag_subscription tagSubscription (shared_TagSubscriptions d)
               (dev_TagSubscriptions device)
               (tagSubscription_arrays (mem s), TagSubscriptions thisConfig, lg1)
      in s\<lparr>groupMap := (groupMap s)(groupKey device \<mapsto>
               thisConfig\<lparr>Subscriptions := subs1, TagSubscriptions := tsubs2\<rparr>),
            mem := (mem s)\<lparr>subscription_arrays := st1, tagSubscription_arrays := st2\<rparr>,
            warnings := lg2\<rparr>)"

text \<open>
  One iteration of the loop over the devices. \<^verbatim>\<open>groupMap[key].Addresses\<close> dereferences the
  pointer stored under the key; a missing key would be a nil dereference, which is the
  result \<open>None\<close>.
\<close>

definition device_step ::
  "(nat \<Rightarrow> nat) \<Rightarrow> ('sub, 'tsub) InputData \<Rightarrow> ('sub, 'tsub) loop_state \<Rightarrow> Device
     \<Rightarrow> ('sub, 'tsub) loop_state option" where
  "device_step slack d s device =
     (let key = groupKey device;
          s1 = (if groupMap s key = None then new_group slack d device s else s);
          s2 = s1\<lparr>tagMap := (tagMap s1)(Address device \<mapsto>
                  \<lparr>sharedTagIds = SharedTagGroups device, tags = Tags device\<rparr>)\<rparr>
      in case groupMap s2 key of
           None \<Rightarrow> None
         | Some g \<Rightarrow>
             (case go_append slack (string_arrays (mem s2)) (Addresses g) (Address device) of
                (st', a') \<Rightarrow>
                  Some (s2\<lparr>groupMap := (groupMap s2)(key \<mapsto> g\<lparr>Addresses := a'\<rparr>),
                           mem := (mem s2)\<lparr>string_arrays := st'\<rparr>\<rparr>)))"

fun devices_loop ::
  "(nat \<Rightarrow> nat) \<Rightarrow> ('sub, 'tsub) InputData \<Rightarrow> Device list \<Rightarrow> ('sub, 'tsub) loop_state
     \<Rightarrow> ('sub, 'tsub) loop_state option" where
  "devices_loop slack d [] s = Some s"
| "devices_loop slack d (device # rest) s =
     (case device_step slack d s device of
        None \<Rightarrow> None
      | Some s' \<Rightarrow> devices_loop slack d rest s')"

text \<open>The state in which the loop starts: both maps freshly made, nothing logged.\<close>

definition start_state :: "('sub, 'tsub) heap \<Rightarrow> ('sub, 'tsub) loop_state" where
  "start_state h = \<lparr>groupMap = Map.empty, tagMap = Map.empty, mem = h, warnings = []\<rparr>"

definition resolve ::
  "(nat \<Rightarrow> nat) \<Rightarrow> ('sub, 'tsub) InputData \<Rightarrow> ('sub, 'tsub) heap
     \<Rightarrow> ('sub, 'tsub) loop_state option" where
  "resolve slack d h = devices_loop slack d (Devices d) (start_state h)"

text \<open>
  The second loop, \<^verbatim>\<open>for _, group := range groupMap { groups = append(groups, *group) }\<close>.
  Go does not specify the order in which \<^verbatim>\<open>range\<close> visits the keys of a map, and the
  runtime varies it from one loop to the next. The visiting order is the parameter \<open>ks\<close>;
  \<open>range_order m ks\<close> says that \<open>ks\<close> is such an order for the map \<open>m\<close>: every
  key once. The slice \<open>groups\<close> is local, so it is held by value: \<open>None\<close> is the nil
  slice that \<^verbatim>\<open>var groups []SharedConfig\<close> declares, and \<^verbatim>\<open>append\<close> makes it non-nil.
\<close>

definition range_order :: "('k \<rightharpoonup> 'v) \<Rightarrow> 'k list \<Rightarrow> bool" where
  "range_order m ks \<longleftrightarrow> distinct ks \<and> set ks = dom m"

definition append_group :: "SharedConfig list option \<Rightarrow> SharedConfig \<Rightarrow> SharedConfig list option" where
  "append_group groups g = (case groups of None \<Rightarrow> Some [g] | Some gs \<Rightarrow> Some (gs @ [g]))"

fun collect_groups ::
  "(string \<rightharpoonup> SharedConfig) \<Rightarrow> string list \<Rightarrow> SharedConfig list option
     \<Rightarrow> SharedConfig list option" where
  "collect_groups gm [] groups = groups"
| "collect_groups gm (k # ks) groups =
     collect_groups gm ks (case gm k of Some g \<Rightarrow> append_group groups g | None \<Rightarrow> groups)"

text \<open>
  \<open>groupDevices\<close> returns the groups and the tag bindings; the model returns with them
  the memory and the warnings logged. \<open>None\<close> is a panic.
\<close>

definition groupDevices ::
  "(nat \<Rightarrow> nat) \<Rightarrow> string list \<Rightarrow> ('sub, 'tsub) InputData \<Rightarrow> ('sub, 'tsub) heap
     \<Rightarrow> (SharedConfig list option \<times> (string \<rightharpoonup> DeviceTag) \<times> ('sub, 'tsub) heap \<times> string list) option" where
  "groupDevices slack ks d h =
     (case resolve slack d h of
        None \<Rightarrow> None
      | Some s \<Rightarrow> Some (collect_groups (groupMap s) ks None, tagMap s, mem s, warnings s))"

section \<open>The injector: init, GetConfigs, GetTags\<close>

record FileConfigInjector =
  FilePath :: string
  Log :: "string list"
  sharedTags :: "string \<rightharpoonup> tag_map"
  deviceTags :: "string \<rightharpoonup> DeviceTag"
  collectorConfigs :: "SharedConfig list option"

text \<open>An injector on which \<^verbatim>\<open>init\<close> has not run: the unexported fields are zero.\<close>

definition new_injector :: "string \<Rightarrow> FileConfigInjector" where
  "new_injector path =
     \<lparr>FilePath = path, Log = [], sharedTags = Map.empty, deviceTags = Map.empty,
      collectorConfigs = None\<rparr>"

definition not_initialized :: string where
  "not_initialized = ''gnmi collector configs are not initialized''"

text \<open>A Go result pair \<^verbatim>\<open>(value, error)\<close> is a pair whose second component is \<open>None\<close> for a nil error.\<close>

definition GetConfigs ::
  "FileConfigInjector \<Rightarrow> string list \<Rightarrow> SharedConfig list option \<times> string option" where
  "GetConfigs f addresses =
     (if collectorConfigs f = None then (None, Some not_initialized)
      else (collectorConfigs f, None))"

text \<open>
  \<^verbatim>\<open>init\<close> reads and decodes the file, which is outside the model: \<open>loaded\<close> is what
  \<^verbatim>\<open>loadJSONFromFile\<close> returned, the error or the decoded inventory, and \<open>h\<close> is the
  memory after the call. \<open>logger\<close> is the logger passed to \<^verbatim>\<open>init\<close>, as the list of
  the messages it has received; it replaces the logger of the injector and receives the
  warnings. The result is the error returned, the injector and the memory; \<open>None\<close>
  is a panic. The lines printed to standard output are not modelled.
\<close>

definition init ::
  "(nat \<Rightarrow> nat) \<Rightarrow> string list \<Rightarrow> string + ('sub, 'tsub) InputData \<Rightarrow> ('sub, 'tsub) heap
     \<Rightarrow> string list \<Rightarrow> FileConfigInjector
     \<Rightarrow> (string option \<times> FileConfigInjector \<times> ('sub, 'tsub) heap) option" where
  "init slack ks loaded h logger f =
     (case loaded of
        Inl err \<Rightarrow> Some (Some err, f, h)
      | Inr c \<Rightarrow>
          (case groupDevices slack ks c h of
             None \<Rightarrow> None
           | Some (groups, tg, h', lg) \<Rightarrow>
               Some (None,
                     f\<lparr>Log := logger @ lg, sharedTags := SharedTags c, deviceTags := tg,
                       collectorConfigs := groups\<rparr>,
                     h')))"

text \<open>
  \<^verbatim>\<open>for key, value := range m { t[key] = value }\<close> stores every entry of \<open>m\<close> in \<open>t\<close>; the
  keys of a map are distinct, so the result is \<open>t ++ m\<close> in whatever order the entries come.
\<close>

definition extend_tags :: "(string \<rightharpoonup> tag_map) \<Rightarrow> tag_map \<Rightarrow> string \<Rightarrow> tag_map" where
  "extend_tags shared t sharedTagID =
     (case shared sharedTagID of Some sharedTag \<Rightarrow> t ++ sharedTag | None \<Rightarrow> t)"

definition GetTags :: "FileConfigInjector \<Rightarrow> string \<Rightarrow> tag_map \<times> string option" where
  "GetTags f address =
     (case deviceTags f address of
        None \<Rightarrow> (Map.empty, None)
      | Some deviceTag \<Rightarrow>
          (foldl (extend_tags (sharedTags f)) (Map.empty ++ tags deviceTag) (sharedTagIds deviceTag),
           None))"

section \<open>Notions used by the properties\<close>

text \<open>The elements of a result slice held by value.\<close>

definition slice_list :: "'a list option \<Rightarrow> 'a list" where
  "slice_list groups = (case groups of None \<Rightarrow> [] | Some gs \<Rightarrow> gs)"

text \<open>
  A header is valid in a store when its elements are recorded there and, unless it is
  empty, its array has been allocated.
\<close>

definition valid_slice :: "'a store \<Rightarrow> slice \<Rightarrow> bool" where
  "valid_slice st t \<longleftrightarrow> len t \<le> length (cells st (arr t)) \<and> (len t = 0 \<or> arr t < fresh st)"

text \<open>
  \<open>clear_of s t\<close>: an \<^verbatim>\<open>append\<close> on \<open>s\<close> that writes in place does not write into an
  element of \<open>t\<close>.
\<close>

definition clear_of :: "slice \<Rightarrow> slice \<Rightarrow> bool" where
  "clear_of s t \<longleftrightarrow> (len s < cap s \<longrightarrow> arr t = arr s \<longrightarrow> len t \<le> len s)"

text \<open>
  The layout of the template slices in a decoded inventory: every slice is valid, and no
  element of a template lies in the spare capacity of another template. The JSON decoder
  gives every slice an array of its own, which is such a layout.
\<close>

definition slices_ok :: "'a store \<Rightarrow> slice set \<Rightarrow> bool" where
  "slices_ok st T \<longleftrightarrow> (\<forall>t\<in>T. valid_slice st t) \<and> (\<forall>s\<in>T. \<forall>t\<in>T. clear_of s t)"

definition templates_ok :: "('sub, 'tsub) InputData \<Rightarrow> ('sub, 'tsub) heap \<Rightarrow> bool" where
  "templates_ok d h \<longleftrightarrow>
     slices_ok (subscription_arrays h) (Subscriptions ` ran (SharedCommonConfigs d)) \<and>
     slices_ok (tagSubscription_arrays h) (TagSubscriptions ` ran (SharedCommonConfigs d)) \<and>
     slices_ok (string_arrays h) (Addresses ` ran (SharedCommonConfigs d))"

text \<open>
  In the data model of the specification a common-config template holds subscriptions and
  tag-subscriptions; member addresses belong to the groups. A template of that form has
  the empty address slice without capacity that the decoder leaves for an absent or empty
  JSON array.
\<close>

definition templates_without_addresses :: "('sub, 'tsub) InputData \<Rightarrow> bool" where
  "templates_without_addresses d \<longleftrightarrow>
     (\<forall>t\<in>ran (SharedCommonConfigs d). len (Addresses t) = 0 \<and> cap (Addresses t) = 0)"

text \<open>The addresses of the devices that have grouping key \<open>k\<close>, in device order.\<close>

definition members :: "Device list \<Rightarrow> string \<Rightarrow> string list" where
  "members ds k = map Address (filter (\<lambda>x. groupKey x = k) ds)"

text \<open>The distinct elements of a list in the order of their first occurrence.\<close>

fun first_seen :: "'a list \<Rightarrow> 'a list" where
  "first_seen [] = []"
| "first_seen (x # xs) = x # removeAll x (first_seen xs)"

text \<open>
  A slice that \<^verbatim>\<open>append\<close> can extend safely: its elements are recorded, it is empty when
  it has no capacity, and its array is allocated when it has capacity. Two slices are apart
  when they do not share an array.
\<close>

definition owned :: "'a store \<Rightarrow> slice \<Rightarrow> bool" where
  "owned st a \<longleftrightarrow>
     len a \<le> length (cells st (arr a)) \<and> (if cap a = 0 then len a = 0 else arr a < fresh st)"

definition apart :: "slice \<Rightarrow> slice \<Rightarrow> bool" where
  "apart a b \<longleftrightarrow> cap a = 0 \<or> cap b = 0 \<or> arr a \<noteq> arr b"

text \<open>
  The state of the loop after the devices \<open>ds\<close>: one group for each key seen, whose
  address slice holds the members of the key and shares no array with another group.
\<close>

definition addresses_ok :: "Device list \<Rightarrow> ('sub, 'tsub) loop_state \<Rightarrow> bool" where
  "addresses_ok ds s \<longleftrightarrow>
     (\<forall>k g. groupMap s k = Some g \<longrightarrow>
        owned (string_arrays (mem s)) (Addresses g) \<and>
        elems (string_arrays (mem s)) (Addresses g) = members ds k) \<and>
     (\<forall>k k' g g'. groupMap s k = Some g \<longrightarrow> groupMap s k' = Some g' \<longrightarrow> k \<noteq> k' \<longrightarrow>
        apart (Addresses g) (Addresses g'))"

definition grouped :: "Device list \<Rightarrow> ('sub, 'tsub) loop_state \<Rightarrow> bool" where
  "grouped ds s \<longleftrightarrow> dom (groupMap s) = groupKey ` set ds \<and> addresses_ok ds s"

text \<open>
  The state of an iteration after the \<^verbatim>\<open>if\<close> statement, in which the group of the device
  exists and its address is appended.
\<close>

definition before_append ::
  "(nat \<Rightarrow> nat) \<Rightarrow> ('sub, 'tsub) InputData \<Rightarrow> ('sub, 'tsub) loop_state \<Rightarrow> Device
     \<Rightarrow> ('sub, 'tsub) loop_state" where
  "before_append slack d s x =
     (if groupMap s (groupKey x) = None then new_group slack d x s else s)"

text \<open>The last device of a list that declares an address, and what the tag index binds to a device.\<close>

definition last_device :: "string \<Rightarrow> Device list \<Rightarrow> Device option" where
  "last_device a ds = find (\<lambda>x. Address x = a) (rev ds)"

definition binding :: "Device \<Rightarrow> DeviceTag" where
  "binding x = \<lparr>sharedTagIds = SharedTagGroups x, tags = Tags x\<rparr>"

text \<open>
  The tag map as the specification words it: start from the device-local tags and overlay
  the tag maps of the referenced groups in the order of their declaration. A reference to
  a group that the inventory does not have contributes nothing.
\<close>

definition referenced_tags :: "(string \<rightharpoonup> tag_map) \<Rightarrow> string list \<Rightarrow> tag_map list" where
  "referenced_tags shared ids = List.map_filter shared ids"

definition overlay :: "tag_map \<Rightarrow> tag_map list \<Rightarrow> tag_map" where
  "overlay local groups = foldl (++) local groups"

text \<open>
  The precedence that the overlay gives one tag key: the last referenced group that has
  the key decides, and the device-local tag counts only when no group has the key.
\<close>

definition precedence :: "tag_map \<Rightarrow> tag_map list \<Rightarrow> string \<Rightarrow> string option" where
  "precedence local groups key =
     (case find (\<lambda>m. m key \<noteq> None) (rev groups) of Some m \<Rightarrow> m key | None \<Rightarrow> local key)"

text \<open>
  The references that a device declares, from which the grouping key is formatted, and the
  inventories in which the formatted key tells these references apart.
\<close>

definition declared :: "Device \<Rightarrow> string list \<times> string \<times> string list" where
  "declared x = (dev_Subscriptions x, dev_SharedConfig x, dev_TagSubscriptions x)"

definition key_faithful :: "Device list \<Rightarrow> bool" where
  "key_faithful ds \<longleftrightarrow>
     (\<forall>x\<in>set ds. \<forall>y\<in>set ds. groupKey x = groupKey y \<longrightarrow> declared x = declared y)"

text \<open>
  The effective sequences of a device as the specification words them: the sequence of the
  common-config template, followed by the entries of every referenced group that the
  inventory has, in the order of the references.
\<close>

definition effective_subscriptions ::
  "('sub, 'tsub) InputData \<Rightarrow> ('sub, 'tsub) heap \<Rightarrow> Device \<Rightarrow> 'sub list" where
  "effective_subscriptions d h x =
     elems (subscription_arrays h) (Subscriptions (lookup_config d (dev_SharedConfig x)))
       @ concat (map (map subscription)
           (List.map_filter (shared_Subscriptions d) (dev_Subscriptions x)))"

definition effective_tag_subscriptions ::
  "('sub, 'tsub) InputData \<Rightarrow> ('sub, 'tsub) heap \<Rightarrow> Device \<Rightarrow> 'tsub list" where
  "effective_tag_subscriptions d h x =
     elems (tagSubscription_arrays h) (TagSubscriptions (lookup_config d (dev_SharedConfig x)))
       @ concat (map (map tagSubscription)
           (List.map_filter (shared_TagSubscriptions d) (dev_TagSubscriptions x)))"

text \<open>The member addresses that a group shows in a memory.\<close>

definition group_addresses :: "('sub, 'tsub) heap \<Rightarrow> SharedConfig \<Rightarrow> string list" where
  "group_addresses h g = elems (string_arrays h) (Addresses g)"

text \<open>
  The state of the loop leaves the templates as they were in the memory \<open>h0\<close> in which
  the resolution started: in each of the three stores every template slice is valid and
  shows the elements it showed in \<open>h0\<close>, and no append on the address slice of a
  group writes into an element of a template.
\<close>

definition kept :: "'a store \<Rightarrow> 'a store \<Rightarrow> slice set \<Rightarrow> bool" where
  "kept st0 st T \<longleftrightarrow> (\<forall>t\<in>T. valid_slice st t \<and> elems st t = elems st0 t)"

definition frame_inv ::
  "('sub, 'tsub) InputData \<Rightarrow> ('sub, 'tsub) heap \<Rightarrow> ('sub, 'tsub) loop_state \<Rightarrow> bool" where
  "frame_inv d h0 s \<longleftrightarrow>
     kept (subscription_arrays h0) (subscription_arrays (mem s))
       (Subscriptions ` ran (SharedCommonConfigs d)) \<and>
     kept (tagSubscription_arrays h0) (tagSubscription_arrays (mem s))
       (TagSubscriptions ` ran (SharedCommonConfigs d)) \<and>
     kept (string_arrays h0) (string_arrays (mem s))
       (Addresses ` ran (SharedCommonConfigs d)) \<and>
     (\<forall>k g. groupMap s k = Some g \<longrightarrow>
        (\<forall>t\<in>Addresses ` ran (SharedCommonConfigs d). clear_of (Addresses g) t))"

text \<open>
  IDs for which the formatted key is unambiguous: no ID of a list is empty or has a space,
  no subscription-group ID has a closing bracket, and the common-config ID has no
  vertical bar.
\<close>

definition spaceless :: "string \<Rightarrow> bool" where
  "spaceless s \<longleftrightarrow> s \<noteq> [] \<and> CHR '' '' \<notin> set s"

definition plain_ids :: "Device \<Rightarrow> bool" where
  "plain_ids x \<longleftrightarrow>
     (\<forall>s\<in>set (dev_Subscriptions x). spaceless s \<and> CHR '']'' \<notin> set s) \<and>
     CHR ''|'' \<notin> set (dev_SharedConfig x) \<and>
     (\<forall>s\<in>set (dev_TagSubscriptions x). spaceless s)"

text \<open>What \<open>join_space\<close> puts after the first element.\<close>

definition spaced :: "string list \<Rightarrow> string" where
  "spaced xs = concat (map (\<lambda>y. CHR '' '' # y) xs)"

text \<open>
  The warnings that the creation of a group for a device logs: one for each declared
  subscription-group ID that the inventory does not have, then one for each such
  tag-subscription-group ID. The devices that create a group are those that are the first
  with their grouping key; \<open>seen\<close> is the set of the keys that have a group.
\<close>

definition device_warnings :: "('sub, 'tsub) InputData \<Rightarrow> Device \<Rightarrow> string list" where
  "device_warnings d x =
     map warn_subscription (filter (\<lambda>k. shared_Subscriptions d k = None) (dev_Subscriptions x))
     @ map warn_tag_subscription
         (filter (\<lambda>k. shared_TagSubscriptions d k = None) (dev_TagSubscriptions x))"

fun creators :: "string set \<Rightarrow> Device list \<Rightarrow> Device list" where
  "creators seen [] = []"
| "creators seen (x # xs) =
     (if groupKey x \<in> seen then creators seen xs
      else x # creators (insert (groupKey x) seen) xs)"

text \<open>
  Templates whose subscription and tag-subscription slices have no spare capacity. The
  device that creates the group of a key is the first device of the list with the key.
  \<open>built\<close> is the state of the loop in which every group shows the effective
  sequences of the device that created it.
\<close>

definition templates_full :: "('sub, 'tsub) InputData \<Rightarrow> bool" where
  "templates_full d \<longleftrightarrow>
     (\<forall>t\<in>ran (SharedCommonConfigs d).
        len (Subscriptions t) = cap (Subscriptions t) \<and>
        len (TagSubscriptions t) = cap (TagSubscriptions t))"

definition creator :: "Device list \<Rightarrow> string \<Rightarrow> Device option" where
  "creator ds k = find (\<lambda>x. groupKey x = k) ds"

definition built ::
  "('sub, 'tsub) InputData \<Rightarrow> ('sub, 'tsub) heap \<Rightarrow> Device list \<Rightarrow> ('sub, 'tsub) loop_state
     \<Rightarrow> bool" where
  "built d h0 ds s \<longleftrightarrow>
     dom (groupMap s) = groupKey ` set ds \<and>
     (\<forall>k g. groupMap s k = Some g \<longrightarrow>
        valid_slice (subscription_arrays (mem s)) (Subscriptions g) \<and>
        valid_slice (tagSubscription_arrays (mem s)) (TagSubscriptions g) \<and>
        (\<forall>c. creator ds k = Some c \<longrightarrow>
           elems (subscription_arrays (mem s)) (Subscriptions g)
             = effective_subscriptions d h0 c \<and>
           elems (tagSubscription_arrays (mem s)) (TagSubscriptions g)
             = effective_tag_subscriptions d h0 c))"

text \<open>
  What a group shows in a memory: its subscriptions, its tag-subscriptions and its member
  addresses. \<open>expected_view\<close> is what the group of a key is to show: the effective
  sequences of the device that created it and the members of the key.
\<close>

definition group_view ::
  "('sub, 'tsub) heap \<Rightarrow> SharedConfig \<Rightarrow> 'sub list \<times> 'tsub list \<times> string list" where
  "group_view h g =
     (elems (subscription_arrays h) (Subscriptions g),
      elems (tagSubscription_arrays h) (TagSubscriptions g),
      elems (string_arrays h) (Addresses g))"


text \<open>
  Two decoded inventories are the same inventory when they agree in what they hold by
  value and, for every common-config ID, the entries (or the zero value, for an ID that
  is not a key) show the same sequences, each in the memory of its inventory. The headers
  and the memories themselves may differ, as they do between two runs of the decoder.
\<close>

definition same_inventory ::
  "('sub, 'tsub) InputData \<Rightarrow> ('sub, 'tsub) heap \<Rightarrow> ('sub, 'tsub) InputData
     \<Rightarrow> ('sub, 'tsub) heap \<Rightarrow> bool" where
  "same_inventory d h d' h' \<longleftrightarrow>
     Devices d = Devices d' \<and>
     shared_Subscriptions d = shared_Subscriptions d' \<and>
     shared_TagSubscriptions d = shared_TagSubscriptions d' \<and>
     SharedTags d = SharedTags d' \<and>
     (\<forall>cid. group_view h (lookup_config d cid) = group_view h' (lookup_config d' cid))"

text \<open>
  The templates for which the content of the groups is stated: laid out as the decoder
  lays them out, without spare capacity and without addresses.
\<close>

definition plain_templates :: "('sub, 'tsub) InputData \<Rightarrow> ('sub, 'tsub) heap \<Rightarrow> bool" where
  "plain_templates d h \<longleftrightarrow>
     templates_ok d h \<and> templates_full d \<and> templates_without_addresses d"

section \<open>Concrete inventories\<close>

text \<open>
  Inventories on which the properties below are evaluated. The payload of a subscription
  is its path, a string. The runtime adds no spare capacity when a slice grows.
\<close>

definition no_slack :: "nat \<Rightarrow> nat" where
  "no_slack n = 0"

definition empty_store :: "'a store" where
  "empty_store = \<lparr>cells = (\<lambda>p. []), fresh = 1\<rparr>"

definition empty_heap :: "(string, string) heap" where
  "empty_heap =
     \<lparr>subscription_arrays = empty_store, tagSubscription_arrays = empty_store,
      string_arrays = empty_store\<rparr>"

definition device :: "string \<Rightarrow> string list \<Rightarrow> string \<Rightarrow> Device" where
  "device a ss c =
     \<lparr>DeviceID = [], Address = a, dev_Subscriptions = ss, dev_TagSubscriptions = [],
      dev_SharedConfig = c, SharedTagGroups = [], Tags = Map.empty\<rparr>"

definition no_devices :: "(string, string) InputData" where
  "no_devices =
     \<lparr>shared_Subscriptions = Map.empty, shared_TagSubscriptions = Map.empty,
      SharedCommonConfigs = Map.empty, SharedTags = Map.empty, Devices = []\<rparr>"

text \<open>
  The tag example of the specification: a device with the local tag \<^verbatim>\<open>env = dev\<close> that
  references the shared tag group \<^verbatim>\<open>{env = prod, region = us}\<close>.
\<close>

definition tagged_device :: Device where
  "tagged_device =
     (device ''10.0.0.1'' [] [])\<lparr>SharedTagGroups := [''site''], Tags := [''env'' \<mapsto> ''dev'']\<rparr>"

definition tagged_inventory :: "(string, string) InputData" where
  "tagged_inventory =
     no_devices\<lparr>SharedTags := [''site'' \<mapsto> [''env'' \<mapsto> ''prod'', ''region'' \<mapsto> ''us'']],
                Devices := [tagged_device]\<rparr>"

text \<open>
  Two devices that reference different subscription groups with the same content: their
  effective subscriptions are equal, their grouping keys are not.
\<close>

definition two_groups :: "(string, string) InputData" where
  "two_groups =
     no_devices\<lparr>shared_Subscriptions :=
                  [''g1'' \<mapsto> [\<lparr>sub_Id = ''sub1'', subscription = ''/interfaces''\<rparr>],
                   ''g2'' \<mapsto> [\<lparr>sub_Id = ''sub1'', subscription = ''/interfaces''\<rparr>]],
                Devices := [device ''A'' [''g1''] [], device ''B'' [''g2''] []]\<rparr>"

definition key_A :: string where "key_A = ''[g1]||[]''"
definition key_B :: string where "key_B = ''[g2]||[]''"

text \<open>Two devices with one address, different subscription groups and different tags.\<close>

definition first_twin :: Device where
  "first_twin = (device ''10.0.0.1'' [''g1''] [])\<lparr>Tags := [''rack'' \<mapsto> ''r1'']\<rparr>"

definition second_twin :: Device where
  "second_twin = (device ''10.0.0.1'' [''g2''] [])\<lparr>Tags := [''rack'' \<mapsto> ''r2'']\<rparr>"

definition twins :: "(string, string) InputData" where
  "twins = two_groups\<lparr>Devices := [first_twin, second_twin]\<rparr>"

text \<open>
  Two devices that extend the same common-config template with different subscription
  groups. The template has three subscriptions in an array of capacity four, as a slice
  has after the decoder has grown it from empty.
\<close>

definition base_template :: SharedConfig where
  "base_template =
     \<lparr>Subscriptions = \<lparr>arr = 1, len = 3, cap = 4\<rparr>, TagSubscriptions = nil_slice,
      Addresses = nil_slice\<rparr>"

definition template_heap :: "(string, string) heap" where
  "template_heap =
     empty_heap\<lparr>subscription_arrays :=
       \<lparr>cells = (\<lambda>p. [])(1 := [''/system'', ''/cpu'', ''/memory'']), fresh = 2\<rparr>\<rparr>"

definition shared_template :: "(string, string) InputData" where
  "shared_template =
     no_devices\<lparr>shared_Subscriptions :=
                  [''g1'' \<mapsto> [\<lparr>sub_Id = ''if'', subscription = ''/interfaces''\<rparr>],
                   ''g2'' \<mapsto> [\<lparr>sub_Id = ''bgp'', subscription = ''/bgp''\<rparr>]],
                SharedCommonConfigs := [''base'' \<mapsto> base_template],
                Devices := [device ''A'' [''g1''] ''base'', device ''B'' [''g2''] ''base'']\<rparr>"

text \<open>
  Two devices whose declared subscription references differ and are formatted to the same
  grouping key: \<^verbatim>\<open>["a b"]\<close> and \<^verbatim>\<open>["a", "b"]\<close> both print as \<^verbatim>\<open>[a b]\<close>. The inventory has a
  subscription group \<^verbatim>\<open>a b\<close> and no group \<^verbatim>\<open>a\<close> or \<^verbatim>\<open>b\<close>.
\<close>

definition colliding :: "(string, string) InputData" where
  "colliding =
     no_devices\<lparr>shared_Subscriptions :=
                  [''a b'' \<mapsto> [\<lparr>sub_Id = ''if'', subscription = ''/interfaces''\<rparr>]],
                Devices := [device ''A'' [''a b''] [], device ''B'' [''a'', ''b''] []]\<rparr>"

text \<open>
  Two devices that declare the address \<^verbatim>\<open>a\<close>, and a third device with the address
  \<^verbatim>\<open>b\<close>. The first and the third device extend the common-config template \<^verbatim>\<open>base\<close>,
  which carries three addresses of its own in an array of capacity four; the second device
  names no template.
\<close>

definition seeded_template :: SharedConfig where
  "seeded_template =
     \<lparr>Subscriptions = nil_slice, TagSubscriptions = nil_slice,
      Addresses = \<lparr>arr = 1, len = 3, cap = 4\<rparr>\<rparr>"

definition seeded_heap :: "(string, string) heap" where
  "seeded_heap =
     empty_heap\<lparr>string_arrays :=
       \<lparr>cells = (\<lambda>p. [])(1 := [''X'', ''Y'', ''Z'']), fresh = 2\<rparr>\<rparr>"

definition first_seeded :: Device where
  "first_seeded = (device ''a'' [] ''base'')\<lparr>Tags := [''rack'' \<mapsto> ''r1'']\<rparr>"

definition second_seeded :: Device where
  "second_seeded = (device ''a'' [] [])\<lparr>Tags := [''rack'' \<mapsto> ''r2'']\<rparr>"

definition third_seeded :: Device where
  "third_seeded = device ''b'' [''g1''] ''base''"

definition seeded :: "(string, string) InputData" where
  "seeded =
     no_devices\<lparr>shared_Subscriptions :=
                  [''g1'' \<mapsto> [\<lparr>sub_Id = ''if'', subscription = ''/interfaces''\<rparr>]],
                SharedCommonConfigs := [''base'' \<mapsto> seeded_template],
                Devices := [first_seeded, second_seeded, third_seeded]\<rparr>"

section \<open>Lemmas\<close>

subsection \<open>append\<close>

lemma length_put: "length cs \<le> length (put cs i x)"
  by (simp add: put_def)

lemma take_put: "n \<le> i \<Longrightarrow> n \<le> length cs \<Longrightarrow> take n (put cs i x) = take n cs"
  by (simp add: put_def min_def)

lemma take_Suc_put: "i \<le> length cs \<Longrightarrow> take (Suc i) (put cs i x) = take i cs @ [x]"
  by (simp add: put_def min_def)

lemma go_append_frame:
  assumes "go_append slack st s x = (st', s')" and "valid_slice st t" and "clear_of s t"
  shows "elems st' t = elems st t" and "valid_slice st' t" and "clear_of s' t"
proof -
  show "elems st' t = elems st t"
    using assms
    by (auto simp: go_append_def elems_def valid_slice_def clear_of_def take_put split: if_splits)
  show "valid_slice st' t"
    using assms length_put [of "cells st (arr s)" "len s" x]
    by (auto simp: go_append_def valid_slice_def split: if_splits)
  show "clear_of s' t"
    using assms
    by (auto simp: go_append_def valid_slice_def clear_of_def split: if_splits)
qed

lemma go_append_elems:
  assumes "go_append slack st s x = (st', s')" and "len s \<le> length (cells st (arr s))"
  shows "elems st' s' = elems st s @ [x]" and "len s' \<le> length (cells st' (arr s'))"
  using assms
  by (auto simp: go_append_def elems_def take_Suc_put put_def min_def split: if_splits)

lemma go_append_fresh:
  assumes "go_append slack st s x = (st', s')"
  shows "fresh st \<le> fresh st'"
  using assms by (auto simp: go_append_def split: if_splits)

lemma go_append_owned:
  assumes "go_append slack st s x = (st', s')" and "owned st s"
  shows "owned st' s'" and "0 < cap s'"
  using assms go_append_elems(2) [OF assms(1)]
  by (auto simp: go_append_def owned_def split: if_splits)

lemma go_append_other:
  assumes "go_append slack st s x = (st', s')" and "owned st b" and "apart s b"
  shows "elems st' b = elems st b" and "owned st' b" and "apart s' b"
proof -
  have v: "valid_slice st b"
    using assms(2) by (auto simp: owned_def valid_slice_def split: if_splits)
  have c: "clear_of s b"
    using assms(2,3) by (auto simp: owned_def apart_def clear_of_def split: if_splits)
  show "elems st' b = elems st b"
    by (rule go_append_frame(1) [OF assms(1) v c])
  have "valid_slice st' b"
    by (rule go_append_frame(2) [OF assms(1) v c])
  then show "owned st' b"
    using assms(2) go_append_fresh [OF assms(1)]
    by (auto simp: owned_def valid_slice_def split: if_splits)
  show "apart s' b"
    using assms by (auto simp: go_append_def apart_def owned_def split: if_splits)
qed


subsection \<open>One device\<close>

lemma new_group_fields:
  "string_arrays (mem (new_group slack d x s)) = string_arrays (mem s)"
  "tagMap (new_group slack d x s) = tagMap s"
  "k \<noteq> groupKey x \<Longrightarrow> groupMap (new_group slack d x s) k = groupMap s k"
  "\<exists>g. groupMap (new_group slack d x s) (groupKey x) = Some g
         \<and> Addresses g = Addresses (lookup_config d (dev_SharedConfig x))"
  by (simp_all add: new_group_def Let_def split: prod.splits)

lemma device_step_cases:
  assumes "device_step slack d s x = Some s'"
  obtains g st' a' where
    "groupMap (before_append slack d s x) (groupKey x) = Some g"
    "go_append slack (string_arrays (mem (before_append slack d s x))) (Addresses g) (Address x)
       = (st', a')"
    "groupMap s' = (groupMap (before_append slack d s x))(groupKey x \<mapsto> g\<lparr>Addresses := a'\<rparr>)"
    "string_arrays (mem s') = st'"
    "tagMap s' = (tagMap s)(Address x \<mapsto> binding x)"
  using assms
  by (auto simp: device_step_def before_append_def binding_def Let_def new_group_fields
           split: option.splits prod.splits if_splits)

lemma lookup_config_no_addresses:
  assumes "templates_without_addresses d"
  shows "len (Addresses (lookup_config d c)) = 0 \<and> cap (Addresses (lookup_config d c)) = 0"
  using assms
  by (auto simp: templates_without_addresses_def lookup_config_def zero_SharedConfig_def
                 nil_slice_def ran_def split: option.splits)

lemma members_snoc:
  "members (ds @ [x]) k = (if groupKey x = k then members ds k @ [Address x] else members ds k)"
  by (simp add: members_def)

lemma members_unseen: "k \<notin> groupKey ` set ds \<Longrightarrow> members ds k = []"
  by (auto simp: members_def filter_empty_conv)

lemma apart_sym: "apart a b \<Longrightarrow> apart b a"
  by (auto simp: apart_def)

lemma before_append_ok:
  assumes "grouped ds s" and "templates_without_addresses d"
  shows "addresses_ok ds (before_append slack d s x)"
    and "dom (groupMap (before_append slack d s x)) = groupKey ` set (ds @ [x])"
proof -
  let ?k = "groupKey x"
  show "dom (groupMap (before_append slack d s x)) = groupKey ` set (ds @ [x])"
  proof (cases "groupMap s ?k")
    case None
    obtain g where "groupMap (new_group slack d x s) ?k = Some g"
      using new_group_fields(4) by blast
    then have "groupMap (new_group slack d x s) k = (if k = ?k then Some g else groupMap s k)" for k
      using new_group_fields(3) [of k x slack d s] by simp
    then have "dom (groupMap (new_group slack d x s)) = insert ?k (dom (groupMap s))"
      by (auto simp: dom_def)
    with None assms(1) show ?thesis
      by (auto simp: before_append_def grouped_def)
  next
    case (Some g)
    with assms(1) show ?thesis
      by (auto simp: before_append_def grouped_def)
  qed
  show "addresses_ok ds (before_append slack d s x)"
  proof (cases "groupMap s ?k")
    case (Some g)
    with assms(1) show ?thesis
      by (simp add: before_append_def grouped_def)
  next
    case None
    obtain g0 where g0: "groupMap (new_group slack d x s) ?k = Some g0"
        "Addresses g0 = Addresses (lookup_config d (dev_SharedConfig x))"
      using new_group_fields(4) by blast
    have z: "len (Addresses g0) = 0" "cap (Addresses g0) = 0"
      using lookup_config_no_addresses [OF assms(2)] g0(2) by simp_all
    have "?k \<notin> dom (groupMap s)"
      using None by (simp add: domIff)
    then have unseen: "members ds ?k = []"
      using assms(1) by (intro members_unseen) (simp add: grouped_def)
    have old: "addresses_ok ds s"
      using assms(1) by (simp add: grouped_def)
    have lookup: "groupMap (new_group slack d x s) k = (if k = ?k then Some g0 else groupMap s k)" for k
      using g0(1) new_group_fields(3) [of k x slack d s] by simp
    show ?thesis
      using None old z unseen
      unfolding before_append_def addresses_ok_def
      by (auto simp: lookup new_group_fields(1) owned_def apart_def elems_def split: if_splits)
  qed
qed

lemma device_step_grouped:
  assumes step: "device_step slack d s x = Some s'"
    and inv: "grouped ds s" and tmpl: "templates_without_addresses d"
  shows "grouped (ds @ [x]) s'"
proof -
  let ?k = "groupKey x" and ?b = "before_append slack d s x"
  from step obtain g st' a' where
      g: "groupMap ?b ?k = Some g"
      and ap: "go_append slack (string_arrays (mem ?b)) (Addresses g) (Address x) = (st', a')"
      and gm: "groupMap s' = (groupMap ?b)(?k \<mapsto> g\<lparr>Addresses := a'\<rparr>)"
      and st: "string_arrays (mem s') = st'"
    by (rule device_step_cases)
  have ok: "addresses_ok ds ?b" and dm: "dom (groupMap ?b) = groupKey ` set (ds @ [x])"
    using before_append_ok [OF inv tmpl] by blast+
  have og: "owned (string_arrays (mem ?b)) (Addresses g)"
    and eg: "elems (string_arrays (mem ?b)) (Addresses g) = members ds ?k"
    using ok g by (auto simp: addresses_ok_def)
  have new_owned: "owned st' a'"
    by (rule go_append_owned(1) [OF ap og])
  have new_elems: "elems st' a' = members (ds @ [x]) ?k"
    using go_append_elems(1) [OF ap] og eg by (simp add: owned_def members_snoc)
  have others: "owned st' (Addresses g') \<and> elems st' (Addresses g') = members (ds @ [x]) k
                  \<and> apart a' (Addresses g')"
    if "groupMap ?b k = Some g'" and "k \<noteq> ?k" for k g'
  proof -
    have o: "owned (string_arrays (mem ?b)) (Addresses g')"
      and e: "elems (string_arrays (mem ?b)) (Addresses g') = members ds k"
      using ok that(1) by (auto simp: addresses_ok_def)
    have a: "apart (Addresses g) (Addresses g')"
      using ok g that by (auto simp: addresses_ok_def)
    show ?thesis
      using go_append_other [OF ap o a] e that(2) by (simp add: members_snoc)
  qed
  have "addresses_ok (ds @ [x]) s'"
    unfolding addresses_ok_def
  proof (intro conjI allI impI)
    fix k h assume "groupMap s' k = Some h"
    then show "owned (string_arrays (mem s')) (Addresses h)"
      using new_owned others by (cases "k = ?k") (auto simp: gm st)
  next
    fix k h assume "groupMap s' k = Some h"
    then show "elems (string_arrays (mem s')) (Addresses h) = members (ds @ [x]) k"
      using new_elems others by (cases "k = ?k") (auto simp: gm st)
  next
    fix k k' h h'
    assume "groupMap s' k = Some h" and "groupMap s' k' = Some h'" and "k \<noteq> k'"
    moreover have "apart (Addresses p) (Addresses q)"
      if "groupMap ?b k = Some p" "groupMap ?b k' = Some q" for p q
      using ok that \<open>k \<noteq> k'\<close> by (auto simp: addresses_ok_def)
    ultimately show "apart (Addresses h) (Addresses h')"
      using others apart_sym by (auto simp: gm split: if_splits)
  qed
  moreover have "dom (groupMap s') = groupKey ` set (ds @ [x])"
    using dm g by (auto simp: gm)
  ultimately show ?thesis
    by (simp add: grouped_def)
qed


subsection \<open>The loop\<close>

lemma grouped_start: "grouped [] (start_state h)"
  by (simp add: grouped_def addresses_ok_def start_state_def)

lemma devices_loop_grouped:
  assumes "devices_loop slack d rest s = Some s'" and "grouped ds s"
    and "templates_without_addresses d"
  shows "grouped (ds @ rest) s'"
  using assms
proof (induction rest arbitrary: ds s)
  case Nil
  then show ?case by simp
next
  case (Cons x rest)
  from Cons.prems(1) obtain s1 where
      s1: "device_step slack d s x = Some s1" and r: "devices_loop slack d rest s1 = Some s'"
    by (auto split: option.splits)
  have "grouped (ds @ [x]) s1"
    by (rule device_step_grouped [OF s1 Cons.prems(2,3)])
  from Cons.IH [OF r this Cons.prems(3)] show ?case by simp
qed

lemma resolve_grouped:
  assumes "resolve slack d h = Some s" and "templates_without_addresses d"
  shows "grouped (Devices d) s"
  using devices_loop_grouped [OF assms(1) [unfolded resolve_def] grouped_start assms(2)]
  by simp

lemma find_snoc:
  "find P (xs @ [x]) = (case find P xs of Some y \<Rightarrow> Some y | None \<Rightarrow> if P x then Some x else None)"
  by (induction xs) simp_all

lemma last_device_Cons:
  "last_device a (x # ds) =
     (case last_device a ds of Some y \<Rightarrow> Some y | None \<Rightarrow> if Address x = a then Some x else None)"
  by (simp add: last_device_def find_snoc)

lemma devices_loop_tagMap:
  assumes "devices_loop slack d ds s = Some s'"
  shows "tagMap s' a = (case last_device a ds of Some x \<Rightarrow> Some (binding x) | None \<Rightarrow> tagMap s a)"
  using assms
proof (induction ds arbitrary: s)
  case Nil
  then show ?case by (simp add: last_device_def)
next
  case (Cons x ds)
  from Cons.prems obtain s1 where
      s1: "device_step slack d s x = Some s1" and r: "devices_loop slack d ds s1 = Some s'"
    by (auto split: option.splits)
  have "tagMap s1 = (tagMap s)(Address x \<mapsto> binding x)"
    using s1 by (rule device_step_cases)
  with Cons.IH [OF r] show ?case
    by (auto simp: last_device_Cons split: option.splits)
qed

lemma resolve_tagMap:
  assumes "resolve slack d h = Some s"
  shows "tagMap s a = map_option binding (last_device a (Devices d))"
  using devices_loop_tagMap [OF assms [unfolded resolve_def], of a]
  by (simp add: start_state_def split: option.splits)

lemma last_device_None: "last_device a ds = None \<longleftrightarrow> a \<notin> Address ` set ds"
  by (auto simp: last_device_def find_None_iff)

lemma find_SomeD: "find P xs = Some x \<Longrightarrow> x \<in> set xs \<and> P x"
  by (induction xs) (auto split: if_splits)

lemma last_device_Some: "last_device a ds = Some x \<Longrightarrow> x \<in> set ds \<and> Address x = a"
  using find_SomeD [of "\<lambda>x. Address x = a" "rev ds" x] by (simp add: last_device_def)

subsection \<open>The second loop\<close>

lemma collect_groups_map:
  assumes "\<forall>k\<in>set ks. \<exists>g. gm k = Some g \<and> f g = F k"
  shows "map f (slice_list (collect_groups gm ks acc)) = map f (slice_list acc) @ map F ks"
  using assms
proof (induction ks arbitrary: acc)
  case Nil
  then show ?case by simp
next
  case (Cons k ks)
  then obtain g where g: "gm k = Some g" "f g = F k" by auto
  have "slice_list (append_group acc g) = slice_list acc @ [g]"
    by (simp add: append_group_def slice_list_def split: option.splits)
  with Cons g show ?case by simp
qed

lemma collect_groups_nil: "collect_groups gm ks acc = None \<longleftrightarrow> acc = None \<and> (\<forall>k\<in>set ks. gm k = None)"
  by (induction ks arbitrary: acc) (auto simp: append_group_def split: option.splits)

lemma first_seen_set [simp]: "set (first_seen xs) = set xs"
  by (induction xs) auto

lemma first_seen_distinct [simp]: "distinct (first_seen xs)"
  by (induction xs) (auto simp: distinct_removeAll)

subsection \<open>No panic\<close>

lemma device_step_total: "\<exists>s'. device_step slack d s x = Some s'"
proof (cases "groupMap s (groupKey x)")
  case None
  obtain g where "groupMap (new_group slack d x s) (groupKey x) = Some g"
    using new_group_fields(4) by blast
  with None show ?thesis
    by (simp add: device_step_def Let_def split: prod.splits)
next
  case (Some g)
  then show ?thesis
    by (simp add: device_step_def Let_def split: prod.splits)
qed

lemma devices_loop_total: "\<exists>s'. devices_loop slack d ds s = Some s'"
proof (induction ds arbitrary: s)
  case Nil
  show ?case by simp
next
  case (Cons x xs)
  obtain s1 where "device_step slack d s x = Some s1"
    using device_step_total by blast
  with Cons show ?case by simp
qed

lemma resolve_total: "\<exists>s. resolve slack d h = Some s"
  by (simp add: resolve_def devices_loop_total)

subsection \<open>The injector\<close>

lemma init_loaded:
  assumes "resolve slack d h = Some s"
  shows "init slack ks (Inr d) h logger f =
           Some (None,
                 f\<lparr>Log := logger @ warnings s, sharedTags := SharedTags d, deviceTags := tagMap s,
                   collectorConfigs := collect_groups (groupMap s) ks None\<rparr>,
                 mem s)"
  using assms by (simp add: init_def groupDevices_def)

lemma init_cases:
  assumes "init slack ks (Inr d) h logger f = Some (err, f', h')"
  obtains s where "resolve slack d h = Some s" "err = None" "h' = mem s"
    "f' = f\<lparr>Log := logger @ warnings s, sharedTags := SharedTags d, deviceTags := tagMap s,
            collectorConfigs := collect_groups (groupMap s) ks None\<rparr>"
  using assms by (auto simp: init_def groupDevices_def split: option.splits)

lemma foldl_extend_tags:
  "foldl (extend_tags shared) t ids = overlay t (referenced_tags shared ids)"
  by (induction ids arbitrary: t)
     (simp_all add: overlay_def referenced_tags_def extend_tags_def
               split: option.splits)

lemma overlay_precedence: "overlay local groups key = precedence local groups key"
proof (induction groups rule: rev_induct)
  case Nil
  show ?case by (simp add: overlay_def precedence_def)
next
  case (snoc g gs)
  then show ?case
    by (cases "g key") (simp_all add: overlay_def precedence_def map_add_def)
qed

lemma tagged_init:
  "\<exists>f' h'. init no_slack [groupKey tagged_device] (Inr tagged_inventory) empty_heap []
              (new_injector ''devices.json'') = Some (None, f', h')"
  using resolve_total [of no_slack tagged_inventory empty_heap]
  by (auto simp: init_loaded)


subsection \<open>The groups returned\<close>

lemma groupDevices_cases:
  assumes "groupDevices slack ks d h = Some (groups, tg, h', lg)"
  obtains s where "resolve slack d h = Some s" "groups = collect_groups (groupMap s) ks None"
    "tg = tagMap s" "h' = mem s" "lg = warnings s"
  using assms by (auto simp: groupDevices_def split: option.splits)

lemma groups_addresses:
  assumes "resolve slack d h = Some s" and "range_order (groupMap s) ks"
    and "templates_without_addresses d"
  shows "map (group_addresses (mem s)) (slice_list (collect_groups (groupMap s) ks None))
           = map (members (Devices d)) ks"
proof -
  have g: "grouped (Devices d) s"
    by (rule resolve_grouped [OF assms(1,3)])
  have "\<forall>k\<in>set ks. \<exists>g. groupMap s k = Some g \<and> group_addresses (mem s) g = members (Devices d) k"
  proof
    fix k assume "k \<in> set ks"
    then have "k \<in> dom (groupMap s)"
      using assms(2) by (simp add: range_order_def)
    then obtain g where "groupMap s k = Some g" by blast
    with g show "\<exists>g. groupMap s k = Some g \<and> group_addresses (mem s) g = members (Devices d) k"
      by (auto simp: grouped_def addresses_ok_def group_addresses_def)
  qed
  from collect_groups_map [OF this, of None] show ?thesis
    by (simp add: slice_list_def)
qed

lemma range_order_keys:
  assumes "resolve slack d h = Some s" and "range_order (groupMap s) ks"
    and "templates_without_addresses d"
  shows "distinct ks" and "set ks = groupKey ` set (Devices d)"
  using resolve_grouped [OF assms(1,3)] assms(2)
  by (simp_all add: range_order_def grouped_def)

lemma member_address:
  assumes "distinct (map Address ds)" and "x \<in> set ds"
  shows "Address x \<in> set (members ds k) \<longleftrightarrow> groupKey x = k"
proof
  assume "Address x \<in> set (members ds k)"
  then obtain z where z: "z \<in> set ds" "groupKey z = k" "Address z = Address x"
    by (auto simp: members_def)
  have "inj_on Address (set ds)"
    using assms(1) by (simp add: distinct_map)
  from inj_onD [OF this z(3) z(1) assms(2)] z(2) show "groupKey x = k"
    by simp
next
  assume "groupKey x = k"
  with assms(2) show "Address x \<in> set (members ds k)"
    by (force simp: members_def)
qed

lemma groupKey_declared: "declared x = declared y \<Longrightarrow> groupKey x = groupKey y"
  by (simp add: declared_def groupKey_def)


subsection \<open>The concrete inventories\<close>

lemmas run_defs = resolve_def start_state_def device_step_def new_group_def lookup_config_def
  go_append_def groupKey_def fmt_strings_def elems_def put_def zero_SharedConfig_def nil_slice_def
  Let_def device_def empty_heap_def empty_store_def no_devices_def no_slack_def

lemma two_groups_keys:
  "map groupKey (Devices two_groups) = [key_A, key_B]"
  by (simp add: two_groups_def key_A_def key_B_def run_defs)

lemma key_A_neq_B: "key_A \<noteq> key_B" "key_B \<noteq> key_A"
  by (simp_all add: key_A_def key_B_def)

lemma two_groups_plain: "templates_without_addresses two_groups"
  by (simp add: templates_without_addresses_def two_groups_def no_devices_def)

lemma two_groups_orders:
  assumes "resolve no_slack two_groups empty_heap = Some s"
  shows "range_order (groupMap s) [key_A, key_B]" and "range_order (groupMap s) [key_B, key_A]"
proof -
  have "dom (groupMap s) = {key_A, key_B}"
    using resolve_grouped [OF assms two_groups_plain] two_groups_keys
    by (simp add: grouped_def flip: set_map)
  then show "range_order (groupMap s) [key_A, key_B]" and "range_order (groupMap s) [key_B, key_A]"
    using key_A_neq_B by (auto simp: range_order_def)
qed

lemma two_groups_members:
  "members (Devices two_groups) key_A = [''A'']" "members (Devices two_groups) key_B = [''B'']"
  by (simp_all add: members_def two_groups_def key_A_def key_B_def run_defs)

lemma collect_groups_the:
  assumes "range_order gm ks"
  shows "slice_list (collect_groups gm ks None) = map (\<lambda>k. the (gm k)) ks"
proof -
  have "\<forall>k\<in>set ks. \<exists>g. gm k = Some g \<and> id g = the (gm k)"
    using assms by (auto simp: range_order_def)
  from collect_groups_map [OF this, of None] show ?thesis
    by (simp add: slice_list_def)
qed

lemma range_order_mset:
  assumes "range_order gm ks" and "range_order gm ks'"
  shows "mset ks = mset ks'"
  using assms by (intro iffD1 [OF set_eq_iff_mset_eq_distinct]) (simp_all add: range_order_def)


lemma count_list_keys: "(\<Sum>k\<leftarrow>ks. if k = k0 then 1 else 0) = count_list ks k0"
  by (induction ks) simp_all

lemma count_list_distinct: "distinct ks \<Longrightarrow> k0 \<in> set ks \<Longrightarrow> count_list ks k0 = 1"
  by (induction ks) (auto simp: count_list_0_iff)

lemma members_count:
  assumes "distinct ks" and "groupKey ` set ds \<subseteq> set ks"
  shows "(\<Sum>k\<leftarrow>ks. count_list (members ds k) a) = count_list (map Address ds) a"
  using assms(2)
proof (induction ds)
  case Nil
  show ?case by (simp add: members_def)
next
  case (Cons x ds)
  have m: "count_list (members (x # ds) k) a
             = count_list (members ds k) a + (if k = groupKey x then (if Address x = a then 1 else 0) else 0)" for k
    by (auto simp: members_def)
  have "(\<Sum>k\<leftarrow>ks. if k = groupKey x then (if Address x = a then 1 else 0) else (0::nat))
          = (if Address x = a then 1 else 0)"
    using count_list_keys [of "groupKey x" ks] count_list_distinct [OF assms(1), of "groupKey x"] Cons.prems
    by (cases "Address x = a") simp_all
  with Cons show ?case
    by (simp add: m sum_list_addf)
qed

lemma find_app:
  "find P (xs @ ys) = (case find P xs of None \<Rightarrow> find P ys | Some x \<Rightarrow> Some x)"
  by (induction xs) simp_all

lemma last_device_later:
  assumes "Address y = a" and "a \<notin> Address ` set zs"
  shows "last_device a (ws @ y # zs) = Some y"
proof -
  have "find (\<lambda>x. Address x = a) (rev zs) = None"
    using assms(2) by (auto simp: find_None_iff)
  then show ?thesis
    using assms(1) by (simp add: last_device_def find_app)
qed

lemma groupDevices_resolved:
  assumes "resolve slack d h = Some s"
  shows "groupDevices slack ks d h
           = Some (collect_groups (groupMap s) ks None, tagMap s, mem s, warnings s)"
  using assms by (simp add: groupDevices_def)

lemma two_groups_effective:
  "effective_subscriptions two_groups empty_heap (device ''A'' [''g1''] []) = [''/interfaces'']"
  "effective_subscriptions two_groups empty_heap (device ''B'' [''g2''] []) = [''/interfaces'']"
  "effective_tag_subscriptions two_groups empty_heap (device ''A'' [''g1''] []) = []"
  "effective_tag_subscriptions two_groups empty_heap (device ''B'' [''g2''] []) = []"
  by (simp_all add: effective_subscriptions_def effective_tag_subscriptions_def two_groups_def
        run_defs)

lemma two_groups_devices:
  "Devices two_groups = [device ''A'' [''g1''] [], device ''B'' [''g2''] []]"
  by (simp add: two_groups_def)

lemma two_groups_faithful: "key_faithful (Devices two_groups)"
  by (simp add: key_faithful_def two_groups_devices groupKey_def fmt_strings_def device_def)

lemma twins_devices: "Devices twins = [] @ first_twin # [] @ second_twin # []"
  by (simp add: twins_def)

lemma twins_plain: "templates_without_addresses twins"
  by (simp add: templates_without_addresses_def twins_def two_groups_def no_devices_def)

lemma twins_keys: "groupKey first_twin = key_A" "groupKey second_twin = key_B"
  by (simp_all add: first_twin_def second_twin_def key_A_def key_B_def run_defs)

lemma twins_order:
  assumes "resolve no_slack twins empty_heap = Some s"
  shows "range_order (groupMap s) [key_A, key_B]"
  using resolve_grouped [OF assms twins_plain] key_A_neq_B
  by (auto simp: grouped_def range_order_def twins_devices twins_keys)


subsection \<open>The templates are left as they were\<close>

lemma append_each_frame:
  assumes "append_each slack st s xs = (st', s')" and "valid_slice st t" and "clear_of s t"
  shows "elems st' t = elems st t \<and> valid_slice st' t \<and> clear_of s' t"
  using assms
proof (induction xs arbitrary: st s)
  case Nil
  then show ?case by simp
next
  case (Cons x xs)
  obtain st1 s1 where a: "go_append slack st s x = (st1, s1)"
    by (cases "go_append slack st s x")
  with Cons.prems(1) have r: "append_each slack st1 s1 xs = (st', s')"
    by simp
  note f = go_append_frame [OF a Cons.prems(2,3)]
  from Cons.IH [OF r f(2,3)] f(1) show ?case
    by simp
qed

lemma append_shared_frame:
  assumes "append_shared slack warn payload shared keys (st, s, lg) = (st', s', lg')"
    and "valid_slice st t" and "clear_of s t"
  shows "elems st' t = elems st t \<and> valid_slice st' t \<and> clear_of s' t"
  using assms
proof (induction keys arbitrary: st s lg)
  case Nil
  then show ?case by simp
next
  case (Cons key keys)
  show ?case
  proof (cases "shared key")
    case None
    with Cons.prems(1) have "append_shared slack warn payload shared keys (st, s, lg @ [warn key])
        = (st', s', lg')"
      by simp
    from Cons.IH [OF this Cons.prems(2,3)] show ?thesis .
  next
    case (Some sharedSubs)
    obtain st1 s1 where a: "append_each slack st s (map payload sharedSubs) = (st1, s1)"
      by (cases "append_each slack st s (map payload sharedSubs)")
    with Some Cons.prems(1) have r: "append_shared slack warn payload shared keys (st1, s1, lg)
        = (st', s', lg')"
      by simp
    note f = append_each_frame [OF a Cons.prems(2,3)]
    from Cons.IH [OF r] f show ?thesis
      by simp
  qed
qed

lemma append_shared_kept:
  assumes "append_shared slack warn payload shared keys (st, s, lg) = (st', s', lg')"
    and "kept st0 st T" and "\<forall>t\<in>T. clear_of s t"
  shows "kept st0 st' T"
  unfolding kept_def
proof
  fix t assume t: "t \<in> T"
  then have "valid_slice st t" and "elems st t = elems st0 t" and "clear_of s t"
    using assms(2,3) by (simp_all add: kept_def)
  with append_shared_frame [OF assms(1), of t]
  show "valid_slice st' t \<and> elems st' t = elems st0 t"
    by simp
qed

lemma clear_of_nil: "clear_of nil_slice t"
  by (simp add: clear_of_def nil_slice_def)

lemma lookup_config_clear:
  assumes "templates_ok d h"
  shows "\<forall>t\<in>Subscriptions ` ran (SharedCommonConfigs d). clear_of (Subscriptions (lookup_config d c)) t"
    and "\<forall>t\<in>TagSubscriptions ` ran (SharedCommonConfigs d). clear_of (TagSubscriptions (lookup_config d c)) t"
    and "\<forall>t\<in>Addresses ` ran (SharedCommonConfigs d). clear_of (Addresses (lookup_config d c)) t"
proof -
  show "\<forall>t\<in>Subscriptions ` ran (SharedCommonConfigs d). clear_of (Subscriptions (lookup_config d c)) t"
  proof (cases "SharedCommonConfigs d c")
    case None
    then show ?thesis
      by (simp add: lookup_config_def zero_SharedConfig_def clear_of_nil)
  next
    case (Some u)
    then have "u \<in> ran (SharedCommonConfigs d)"
      by (rule ranI)
    with assms Some show ?thesis
      by (simp add: lookup_config_def templates_ok_def slices_ok_def)
  qed
  show "\<forall>t\<in>TagSubscriptions ` ran (SharedCommonConfigs d). clear_of (TagSubscriptions (lookup_config d c)) t"
  proof (cases "SharedCommonConfigs d c")
    case None
    then show ?thesis
      by (simp add: lookup_config_def zero_SharedConfig_def clear_of_nil)
  next
    case (Some u)
    then have "u \<in> ran (SharedCommonConfigs d)"
      by (rule ranI)
    with assms Some show ?thesis
      by (simp add: lookup_config_def templates_ok_def slices_ok_def)
  qed
  show "\<forall>t\<in>Addresses ` ran (SharedCommonConfigs d). clear_of (Addresses (lookup_config d c)) t"
  proof (cases "SharedCommonConfigs d c")
    case None
    then show ?thesis
      by (simp add: lookup_config_def zero_SharedConfig_def clear_of_nil)
  next
    case (Some u)
    then have "u \<in> ran (SharedCommonConfigs d)"
      by (rule ranI)
    with assms Some show ?thesis
      by (simp add: lookup_config_def templates_ok_def slices_ok_def)
  qed
qed

lemma new_group_cases:
  obtains st1 subs1 lg1 st2 tsubs2 lg2 where
    "append_shared slack warn_subscription subscription (shared_Subscriptions d)
       (dev_Subscriptions x)
       (subscription_arrays (mem s), Subscriptions (lookup_config d (dev_SharedConfig x)), warnings s)
     = (st1, subs1, lg1)"
    "append_shared slack warn_tag_subscription tagSubscription (shared_TagSubscriptions d)
       (dev_TagSubscriptions x)
       (tagSubscription_arrays (mem s), TagSubscriptions (lookup_config d (dev_SharedConfig x)), lg1)
     = (st2, tsubs2, lg2)"
    "new_group slack d x s =
       s\<lparr>groupMap := (groupMap s)(groupKey x \<mapsto>
             (lookup_config d (dev_SharedConfig x))\<lparr>Subscriptions := subs1, TagSubscriptions := tsubs2\<rparr>),
         mem := (mem s)\<lparr>subscription_arrays := st1, tagSubscription_arrays := st2\<rparr>,
         warnings := lg2\<rparr>"
proof -
  obtain st1 subs1 lg1 where 1:
    "append_shared slack warn_subscription subscription (shared_Subscriptions d)
       (dev_Subscriptions x)
       (subscription_arrays (mem s), Subscriptions (lookup_config d (dev_SharedConfig x)), warnings s)
     = (st1, subs1, lg1)"
    using prod_cases3 by blast
  obtain st2 tsubs2 lg2 where 2:
    "append_shared slack warn_tag_subscription tagSubscription (shared_TagSubscriptions d)
       (dev_TagSubscriptions x)
       (tagSubscription_arrays (mem s), TagSubscriptions (lookup_config d (dev_SharedConfig x)), lg1)
     = (st2, tsubs2, lg2)"
    using prod_cases3 by blast
  show ?thesis
    by (rule that [OF 1 2]) (simp add: new_group_def Let_def 1 2)
qed

lemma new_group_frame:
  assumes "templates_ok d h0" and "frame_inv d h0 s"
  shows "frame_inv d h0 (new_group slack d x s)"
proof -
  obtain st1 subs1 lg1 st2 tsubs2 lg2 where
    1: "append_shared slack warn_subscription subscription (shared_Subscriptions d)
       (dev_Subscriptions x)
       (subscription_arrays (mem s), Subscriptions (lookup_config d (dev_SharedConfig x)), warnings s)
     = (st1, subs1, lg1)"
    and 2: "append_shared slack warn_tag_subscription tagSubscription (shared_TagSubscriptions d)
       (dev_TagSubscriptions x)
       (tagSubscription_arrays (mem s), TagSubscriptions (lookup_config d (dev_SharedConfig x)), lg1)
     = (st2, tsubs2, lg2)"
    and n: "new_group slack d x s =
       s\<lparr>groupMap := (groupMap s)(groupKey x \<mapsto>
             (lookup_config d (dev_SharedConfig x))\<lparr>Subscriptions := subs1, TagSubscriptions := tsubs2\<rparr>),
         mem := (mem s)\<lparr>subscription_arrays := st1, tagSubscription_arrays := st2\<rparr>,
         warnings := lg2\<rparr>"
    by (rule new_group_cases)
  have k1: "kept (subscription_arrays h0) st1 (Subscriptions ` ran (SharedCommonConfigs d))"
    using append_shared_kept [OF 1 _ lookup_config_clear(1) [OF assms(1)]] assms(2)
    by (simp add: frame_inv_def)
  have k2: "kept (tagSubscription_arrays h0) st2 (TagSubscriptions ` ran (SharedCommonConfigs d))"
    using append_shared_kept [OF 2 _ lookup_config_clear(2) [OF assms(1)]] assms(2)
    by (simp add: frame_inv_def)
  show ?thesis
    using assms(2) k1 k2 lookup_config_clear(3) [OF assms(1), of "dev_SharedConfig x"]
    by (simp add: frame_inv_def n)
qed

lemma device_step_stores:
  assumes "device_step slack d s x = Some s'"
  shows "subscription_arrays (mem s') = subscription_arrays (mem (before_append slack d s x))"
    and "tagSubscription_arrays (mem s') = tagSubscription_arrays (mem (before_append slack d s x))"
    and "warnings s' = warnings (before_append slack d s x)"
  using assms
  by (auto simp: device_step_def before_append_def Let_def split: option.splits prod.splits if_splits)

lemma before_append_frame:
  assumes "templates_ok d h0" and "frame_inv d h0 s"
  shows "frame_inv d h0 (before_append slack d s x)"
  by (simp add: before_append_def new_group_frame [OF assms] assms(2))

lemma device_step_frame:
  assumes step: "device_step slack d s x = Some s'"
    and ok: "templates_ok d h0" and inv: "frame_inv d h0 s"
  shows "frame_inv d h0 s'"
proof -
  let ?b = "before_append slack d s x" and ?T = "Addresses ` ran (SharedCommonConfigs d)"
  from step obtain g st' a' where
      g: "groupMap ?b (groupKey x) = Some g"
      and ap: "go_append slack (string_arrays (mem ?b)) (Addresses g) (Address x) = (st', a')"
      and gm: "groupMap s' = (groupMap ?b)(groupKey x \<mapsto> g\<lparr>Addresses := a'\<rparr>)"
      and st: "string_arrays (mem s') = st'"
    by (rule device_step_cases)
  have b: "frame_inv d h0 ?b"
    by (rule before_append_frame [OF ok inv])
  have t: "valid_slice st' t \<and> elems st' t = elems (string_arrays h0) t \<and> clear_of a' t"
    if "t \<in> ?T" for t
  proof -
    have "valid_slice (string_arrays (mem ?b)) t"
      and e: "elems (string_arrays (mem ?b)) t = elems (string_arrays h0) t"
      and "clear_of (Addresses g) t"
      using b g that by (auto simp: frame_inv_def kept_def)
    from go_append_frame [OF ap this(1,3)] e show ?thesis
      by simp
  qed
  have "kept (string_arrays h0) (string_arrays (mem s')) ?T"
    using t by (simp add: kept_def st)
  moreover have "\<forall>k g'. groupMap s' k = Some g' \<longrightarrow> (\<forall>t\<in>?T. clear_of (Addresses g') t)"
  proof (intro allI impI ballI)
    fix k g' t assume "groupMap s' k = Some g'" and "t \<in> ?T"
    then show "clear_of (Addresses g') t"
      using t b by (cases "k = groupKey x") (auto simp: gm frame_inv_def)
  qed
  ultimately show ?thesis
    using b by (simp add: frame_inv_def device_step_stores [OF step])
qed

lemma devices_loop_frame:
  assumes "devices_loop slack d ds s = Some s'" and "templates_ok d h0" and "frame_inv d h0 s"
  shows "frame_inv d h0 s'"
  using assms
proof (induction ds arbitrary: s)
  case Nil
  then show ?case by simp
next
  case (Cons x ds)
  from Cons.prems(1) obtain s1 where
      s1: "device_step slack d s x = Some s1" and r: "devices_loop slack d ds s1 = Some s'"
    by (auto split: option.splits)
  from Cons.IH [OF r Cons.prems(2) device_step_frame [OF s1 Cons.prems(2,3)]] show ?case .
qed

lemma frame_start:
  assumes "templates_ok d h"
  shows "frame_inv d h (start_state h)"
  using assms by (simp add: frame_inv_def kept_def start_state_def templates_ok_def slices_ok_def)

lemma shared_template_ok: "templates_ok shared_template template_heap"
  by (simp add: templates_ok_def slices_ok_def shared_template_def no_devices_def base_template_def
        template_heap_def empty_heap_def empty_store_def valid_slice_def clear_of_def nil_slice_def)

subsection \<open>The grouping key of plain IDs\<close>

lemma join_space_Cons: "join_space (x # xs) = x @ spaced xs"
  by (induction xs arbitrary: x) (simp_all add: spaced_def)

lemma spaced_cases: "spaced xs = [] \<or> (\<exists>r. spaced xs = CHR '' '' # r)"
  by (cases xs) (simp_all add: spaced_def)

lemma first_char_split:
  assumes "c \<notin> set x" and "c \<notin> set y" and "x @ c # t = y @ c # t'"
  shows "x = y \<and> t = t'"
  using assms
proof (induction x arbitrary: y)
  case Nil
  then show ?case by (cases y) auto
next
  case (Cons a x)
  then show ?case by (cases y) auto
qed

lemma split_at_char:
  assumes "c \<notin> set x" and "c \<notin> set y"
    and "r = [] \<or> (\<exists>t. r = c # t)" and "r' = [] \<or> (\<exists>t. r' = c # t)"
    and "x @ r = y @ r'"
  shows "x = y \<and> r = r'"
proof -
  consider "r = []" "r' = []" | t where "r = []" "r' = c # t" | t where "r = c # t" "r' = []"
    | t t' where "r = c # t" "r' = c # t'"
    using assms(3,4) by blast
  then show ?thesis
  proof cases
    case 1
    with assms(5) show ?thesis by simp
  next
    case 2
    with assms(5) have "c \<in> set x" by simp
    with assms(1) show ?thesis by simp
  next
    case 3
    with assms(5) have "c \<in> set y" by (metis append_Nil2 in_set_conv_decomp)
    with assms(2) show ?thesis by simp
  next
    case 4
    with assms(1,2,5) first_char_split [of c x y t t'] show ?thesis
      by simp
  qed
qed

lemma spaced_inj:
  assumes "\<forall>s\<in>set xs. spaceless s" and "\<forall>s\<in>set ys. spaceless s" and "spaced xs = spaced ys"
  shows "xs = ys"
  using assms
proof (induction xs arbitrary: ys)
  case Nil
  then show ?case by (cases ys) (simp_all add: spaced_def)
next
  case (Cons x xs)
  from Cons.prems(3) obtain y ys' where ys: "ys = y # ys'"
    by (cases ys) (simp_all add: spaced_def)
  have e: "x @ spaced xs = y @ spaced ys'"
    using Cons.prems(3) by (simp add: ys spaced_def)
  have "x = y \<and> spaced xs = spaced ys'"
    using Cons.prems(1,2) spaced_cases [of xs] spaced_cases [of ys']
    by (intro split_at_char [OF _ _ _ _ e]) (simp_all add: ys spaceless_def)
  with Cons.IH [of ys'] Cons.prems(1,2) show ?case
    by (simp add: ys)
qed

lemma join_space_inj:
  assumes "\<forall>s\<in>set xs. spaceless s" and "\<forall>s\<in>set ys. spaceless s"
    and "join_space xs = join_space ys"
  shows "xs = ys"
proof (cases xs)
  case Nil
  show ?thesis
  proof (cases ys)
    case Nil
    with \<open>xs = []\<close> show ?thesis by simp
  next
    case (Cons y ys')
    with assms(2,3) \<open>xs = []\<close> show ?thesis
      by (simp add: join_space_Cons spaceless_def)
  qed
next
  case (Cons x xs')
  show ?thesis
  proof (cases ys)
    case Nil
    with assms(1,3) Cons show ?thesis
      by (simp add: join_space_Cons spaceless_def)
  next
    case ys: (Cons y ys')
    have e: "x @ spaced xs' = y @ spaced ys'"
      using assms(3) by (simp add: Cons ys join_space_Cons)
    have "x = y \<and> spaced xs' = spaced ys'"
      using assms(1,2) spaced_cases [of xs'] spaced_cases [of ys']
      by (intro split_at_char [OF _ _ _ _ e]) (simp_all add: Cons ys spaceless_def)
    with spaced_inj [of xs' ys'] assms(1,2) show ?thesis
      by (simp add: Cons ys)
  qed
qed

lemma join_space_chars: "c \<noteq> CHR '' '' \<Longrightarrow> \<forall>s\<in>set xs. c \<notin> set s \<Longrightarrow> c \<notin> set (join_space xs)"
  by (induction xs rule: join_space.induct) simp_all

lemma groupKey_inj:
  assumes "plain_ids x" and "plain_ids y" and "groupKey x = groupKey y"
  shows "declared x = declared y"
proof -
  let ?S = "join_space (dev_Subscriptions x)" and ?S' = "join_space (dev_Subscriptions y)"
  let ?T = "join_space (dev_TagSubscriptions x)" and ?T' = "join_space (dev_TagSubscriptions y)"
  have b: "CHR '']'' \<notin> set ?S" "CHR '']'' \<notin> set ?S'"
    using assms(1,2) by (simp_all add: plain_ids_def join_space_chars)
  have "?S @ CHR '']'' # (''|'' @ dev_SharedConfig x @ ''|['' @ ?T @ '']'')
      = ?S' @ CHR '']'' # (''|'' @ dev_SharedConfig y @ ''|['' @ ?T' @ '']'')"
    using assms(3) by (simp add: groupKey_def fmt_strings_def)
  from first_char_split [OF b this] have s: "?S = ?S'"
    and r: "dev_SharedConfig x @ CHR ''|'' # (''['' @ ?T @ '']'')
            = dev_SharedConfig y @ CHR ''|'' # (''['' @ ?T' @ '']'')"
    by simp_all
  have "CHR ''|'' \<notin> set (dev_SharedConfig x)" and "CHR ''|'' \<notin> set (dev_SharedConfig y)"
    using assms(1,2) by (simp_all add: plain_ids_def)
  from first_char_split [OF this r] have c: "dev_SharedConfig x = dev_SharedConfig y"
    and t: "?T = ?T'"
    by simp_all
  have "dev_Subscriptions x = dev_Subscriptions y"
    using assms(1,2) s by (intro join_space_inj) (simp_all add: plain_ids_def)
  moreover have "dev_TagSubscriptions x = dev_TagSubscriptions y"
    using assms(1,2) t by (intro join_space_inj) (simp_all add: plain_ids_def)
  ultimately show ?thesis
    using c by (simp add: declared_def)
qed

lemma plain_ids_faithful:
  assumes "\<forall>x\<in>set ds. plain_ids x"
  shows "key_faithful ds"
  using assms groupKey_inj unfolding key_faithful_def by blast

lemma last_device_unique:
  assumes "distinct (map Address ds)" and "x \<in> set ds"
  shows "last_device (Address x) ds = Some x"
proof -
  have "Address x \<in> Address ` set ds"
    using assms(2) by simp
  then obtain y where y: "last_device (Address x) ds = Some y"
    using last_device_None [of "Address x" ds] by (cases "last_device (Address x) ds") simp_all
  have "inj_on Address (set ds)"
    using assms(1) by (simp add: distinct_map)
  from inj_onD [OF this _ _ assms(2)] last_device_Some [OF y] have "y = x"
    by simp
  with y show ?thesis by simp
qed

subsection \<open>What the creation of a group builds and logs\<close>

lemma append_each_elems:
  assumes "append_each slack st s xs = (st', s')" and "len s \<le> length (cells st (arr s))"
  shows "elems st' s' = elems st s @ xs \<and> len s' \<le> length (cells st' (arr s'))"
  using assms
proof (induction xs arbitrary: st s)
  case Nil
  then show ?case by simp
next
  case (Cons x xs)
  obtain st1 s1 where a: "go_append slack st s x = (st1, s1)"
    by (cases "go_append slack st s x")
  with Cons.prems(1) have r: "append_each slack st1 s1 xs = (st', s')"
    by simp
  note e = go_append_elems [OF a Cons.prems(2)]
  from Cons.IH [OF r e(2)] e(1) show ?case
    by simp
qed

lemma append_shared_elems:
  assumes "append_shared slack warn payload shared keys (st, s, lg) = (st', s', lg')"
    and "len s \<le> length (cells st (arr s))"
  shows "elems st' s' = elems st s @ concat (map (map payload) (List.map_filter shared keys))
         \<and> lg' = lg @ map warn (filter (\<lambda>k. shared k = None) keys)"
  using assms
proof (induction keys arbitrary: st s lg)
  case Nil
  then show ?case by simp
next
  case (Cons key keys)
  show ?case
  proof (cases "shared key")
    case None
    with Cons.prems(1) have "append_shared slack warn payload shared keys (st, s, lg @ [warn key])
        = (st', s', lg')"
      by simp
    from Cons.IH [OF this Cons.prems(2)] None show ?thesis
      by simp
  next
    case (Some sharedSubs)
    obtain st1 s1 where a: "append_each slack st s (map payload sharedSubs) = (st1, s1)"
      by (cases "append_each slack st s (map payload sharedSubs)")
    with Some Cons.prems(1) have r: "append_shared slack warn payload shared keys (st1, s1, lg)
        = (st', s', lg')"
      by simp
    note e = append_each_elems [OF a Cons.prems(2)]
    from Cons.IH [OF r] e Some show ?thesis
      by simp
  qed
qed

lemma append_shared_log:
  assumes "append_shared slack warn payload shared keys (st, s, lg) = (st', s', lg')"
  shows "lg' = lg @ map warn (filter (\<lambda>k. shared k = None) keys)"
  using assms
proof (induction keys arbitrary: st s lg)
  case Nil
  then show ?case by simp
next
  case (Cons key keys)
  show ?case
  proof (cases "shared key")
    case None
    with Cons.prems have "append_shared slack warn payload shared keys (st, s, lg @ [warn key])
        = (st', s', lg')"
      by simp
    from Cons.IH [OF this] None show ?thesis
      by simp
  next
    case (Some sharedSubs)
    obtain st1 s1 where a: "append_each slack st s (map payload sharedSubs) = (st1, s1)"
      by (cases "append_each slack st s (map payload sharedSubs)")
    with Some Cons.prems have r: "append_shared slack warn payload shared keys (st1, s1, lg)
        = (st', s', lg')"
      by simp
    from Cons.IH [OF r] Some show ?thesis
      by simp
  qed
qed

lemma new_group_warnings:
  "warnings (new_group slack d x s) = warnings s @ device_warnings d x"
proof -
  obtain st1 subs1 lg1 st2 tsubs2 lg2 where
    1: "append_shared slack warn_subscription subscription (shared_Subscriptions d)
       (dev_Subscriptions x)
       (subscription_arrays (mem s), Subscriptions (lookup_config d (dev_SharedConfig x)), warnings s)
     = (st1, subs1, lg1)"
    and 2: "append_shared slack warn_tag_subscription tagSubscription (shared_TagSubscriptions d)
       (dev_TagSubscriptions x)
       (tagSubscription_arrays (mem s), TagSubscriptions (lookup_config d (dev_SharedConfig x)), lg1)
     = (st2, tsubs2, lg2)"
    and n: "new_group slack d x s =
       s\<lparr>groupMap := (groupMap s)(groupKey x \<mapsto>
             (lookup_config d (dev_SharedConfig x))\<lparr>Subscriptions := subs1, TagSubscriptions := tsubs2\<rparr>),
         mem := (mem s)\<lparr>subscription_arrays := st1, tagSubscription_arrays := st2\<rparr>,
         warnings := lg2\<rparr>"
    by (rule new_group_cases)
  show ?thesis
    by (simp add: n append_shared_log [OF 1] append_shared_log [OF 2] device_warnings_def)
qed

text \<open>
  Right after its creation a group shows the effective subscriptions and tag-subscriptions
  of the device that created it.
\<close>

lemma new_group_effective:
  assumes "valid_slice (subscription_arrays (mem s)) (Subscriptions (lookup_config d (dev_SharedConfig x)))"
    and "valid_slice (tagSubscription_arrays (mem s)) (TagSubscriptions (lookup_config d (dev_SharedConfig x)))"
  shows "\<exists>g. groupMap (new_group slack d x s) (groupKey x) = Some g
           \<and> elems (subscription_arrays (mem (new_group slack d x s))) (Subscriptions g)
               = effective_subscriptions d (mem s) x
           \<and> elems (tagSubscription_arrays (mem (new_group slack d x s))) (TagSubscriptions g)
               = effective_tag_subscriptions d (mem s) x"
proof -
  obtain st1 subs1 lg1 st2 tsubs2 lg2 where
    1: "append_shared slack warn_subscription subscription (shared_Subscriptions d)
       (dev_Subscriptions x)
       (subscription_arrays (mem s), Subscriptions (lookup_config d (dev_SharedConfig x)), warnings s)
     = (st1, subs1, lg1)"
    and 2: "append_shared slack warn_tag_subscription tagSubscription (shared_TagSubscriptions d)
       (dev_TagSubscriptions x)
       (tagSubscription_arrays (mem s), TagSubscriptions (lookup_config d (dev_SharedConfig x)), lg1)
     = (st2, tsubs2, lg2)"
    and n: "new_group slack d x s =
       s\<lparr>groupMap := (groupMap s)(groupKey x \<mapsto>
             (lookup_config d (dev_SharedConfig x))\<lparr>Subscriptions := subs1, TagSubscriptions := tsubs2\<rparr>),
         mem := (mem s)\<lparr>subscription_arrays := st1, tagSubscription_arrays := st2\<rparr>,
         warnings := lg2\<rparr>"
    by (rule new_group_cases)
  have v1: "len (Subscriptions (lookup_config d (dev_SharedConfig x)))
      \<le> length (cells (subscription_arrays (mem s)) (arr (Subscriptions (lookup_config d (dev_SharedConfig x)))))"
    using assms(1) by (simp add: valid_slice_def)
  have v2: "len (TagSubscriptions (lookup_config d (dev_SharedConfig x)))
      \<le> length (cells (tagSubscription_arrays (mem s)) (arr (TagSubscriptions (lookup_config d (dev_SharedConfig x)))))"
    using assms(2) by (simp add: valid_slice_def)
  show ?thesis
    using append_shared_elems [OF 1 v1] append_shared_elems [OF 2 v2]
    by (simp add: n effective_subscriptions_def effective_tag_subscriptions_def)
qed

lemma before_append_warnings:
  "warnings (before_append slack d s x)
     = (if groupKey x \<in> dom (groupMap s) then warnings s else warnings s @ device_warnings d x)"
  by (auto simp: before_append_def new_group_warnings domIff)

lemma device_step_dom:
  assumes "device_step slack d s x = Some s'"
  shows "dom (groupMap s') = insert (groupKey x) (dom (groupMap s))"
proof -
  from assms obtain g st' a' where
      g: "groupMap (before_append slack d s x) (groupKey x) = Some g"
      and "string_arrays (mem s') = st'"
      and gm: "groupMap s' = (groupMap (before_append slack d s x))(groupKey x \<mapsto> g\<lparr>Addresses := a'\<rparr>)"
    by (rule device_step_cases)
  have "groupMap (before_append slack d s x) k = groupMap s k" if "k \<noteq> groupKey x" for k
    using that by (simp add: before_append_def new_group_fields(3))
  then show ?thesis
    unfolding gm dom_def by auto
qed

lemma devices_loop_warnings:
  assumes "devices_loop slack d ds s = Some s'"
  shows "warnings s' = warnings s @ concat (map (device_warnings d) (creators (dom (groupMap s)) ds))"
  using assms
proof (induction ds arbitrary: s)
  case Nil
  then show ?case by simp
next
  case (Cons x ds)
  from Cons.prems obtain s1 where
      s1: "device_step slack d s x = Some s1" and r: "devices_loop slack d ds s1 = Some s'"
    by (auto split: option.splits)
  have w: "warnings s1
        = (if groupKey x \<in> dom (groupMap s) then warnings s else warnings s @ device_warnings d x)"
    using device_step_stores(3) [OF s1] by (simp only: before_append_warnings)
  note dm = device_step_dom [OF s1]
  show ?case
  proof (cases "groupKey x \<in> dom (groupMap s)")
    case True
    then have "dom (groupMap s1) = dom (groupMap s)"
      using dm by (simp add: insert_absorb)
    with Cons.IH [OF r] w True show ?thesis
      by simp
  next
    case False
    with Cons.IH [OF r] w dm show ?thesis
      by simp
  qed
qed

lemma resolve_warnings:
  assumes "resolve slack d h = Some s"
  shows "warnings s = concat (map (device_warnings d) (creators {} (Devices d)))"
  using devices_loop_warnings [OF assms [unfolded resolve_def]] by (simp add: start_state_def)

lemma creators_cover:
  assumes "x \<in> set ds" and "groupKey x \<notin> seen"
  shows "\<exists>c\<in>set (creators seen ds). c \<in> set ds \<and> groupKey c = groupKey x"
  using assms
proof (induction ds arbitrary: seen)
  case Nil
  then show ?case by simp
next
  case (Cons y ds)
  show ?case
  proof (cases "groupKey y = groupKey x")
    case True
    with Cons.prems(2) show ?thesis by auto
  next
    case False
    with Cons.prems have "x \<in> set ds" and "groupKey x \<notin> insert (groupKey y) seen"
      by auto
    from Cons.IH [OF this] Cons.IH [OF \<open>x \<in> set ds\<close> Cons.prems(2)] show ?thesis
      by auto
  qed
qed

text \<open>
  When the keys tell the declared references apart, every missing reference of every
  device is named in a warning.
\<close>

lemma missing_reference_warned:
  assumes "resolve slack d h = Some s" and "key_faithful (Devices d)" and "x \<in> set (Devices d)"
  shows "set (device_warnings d x) \<subseteq> set (warnings s)"
proof -
  obtain c where c: "c \<in> set (creators {} (Devices d))" "c \<in> set (Devices d)"
      "groupKey c = groupKey x"
    using creators_cover [OF assms(3), of "{}"] by auto
  have "declared c = declared x"
    using assms(2) c(2) assms(3) c(3) unfolding key_faithful_def by blast
  then have e: "device_warnings d c = device_warnings d x"
    by (simp add: device_warnings_def declared_def)
  show ?thesis
  proof
    fix w assume "w \<in> set (device_warnings d x)"
    then have "w \<in> set (device_warnings d c)"
      by (simp only: e)
    with c(1) have "\<exists>ws\<in>set (map (device_warnings d) (creators {} (Devices d))). w \<in> set ws"
      by (intro bexI [of _ "device_warnings d c"]) simp_all
    then show "w \<in> set (warnings s)"
      by (simp only: resolve_warnings [OF assms(1)] set_concat) blast
  qed
qed

subsection \<open>Groups built without spare capacity in the templates\<close>

lemma owned_valid: "owned st a \<Longrightarrow> valid_slice st a"
  by (auto simp: owned_def valid_slice_def split: if_splits)

lemma append_each_owned:
  assumes "append_each slack st s xs = (st', s')" and "owned st s"
  shows "owned st' s'"
  using assms
proof (induction xs arbitrary: st s)
  case Nil
  then show ?case by simp
next
  case (Cons x xs)
  obtain st1 s1 where a: "go_append slack st s x = (st1, s1)"
    by (cases "go_append slack st s x")
  with Cons.prems(1) have r: "append_each slack st1 s1 xs = (st', s')"
    by simp
  from Cons.IH [OF r go_append_owned(1) [OF a Cons.prems(2)]] show ?case .
qed

lemma append_shared_owned:
  assumes "append_shared slack warn payload shared keys (st, s, lg) = (st', s', lg')"
    and "owned st s"
  shows "owned st' s'"
  using assms
proof (induction keys arbitrary: st s lg)
  case Nil
  then show ?case by simp
next
  case (Cons key keys)
  show ?case
  proof (cases "shared key")
    case None
    with Cons.prems(1) have "append_shared slack warn payload shared keys (st, s, lg @ [warn key])
        = (st', s', lg')"
      by simp
    from Cons.IH [OF this Cons.prems(2)] show ?thesis .
  next
    case (Some sharedSubs)
    obtain st1 s1 where a: "append_each slack st s (map payload sharedSubs) = (st1, s1)"
      by (cases "append_each slack st s (map payload sharedSubs)")
    with Some Cons.prems(1) have r: "append_shared slack warn payload shared keys (st1, s1, lg)
        = (st', s', lg')"
      by simp
    from Cons.IH [OF r append_each_owned [OF a Cons.prems(2)]] show ?thesis .
  qed
qed

lemma valid_nil: "valid_slice st nil_slice"
  by (simp add: valid_slice_def nil_slice_def)

lemma elems_nil: "elems st nil_slice = []"
  by (simp add: elems_def nil_slice_def)

lemma lookup_config_valid:
  assumes "frame_inv d h0 s"
  shows "valid_slice (subscription_arrays (mem s)) (Subscriptions (lookup_config d c))"
    and "valid_slice (tagSubscription_arrays (mem s)) (TagSubscriptions (lookup_config d c))"
    and "elems (subscription_arrays (mem s)) (Subscriptions (lookup_config d c))
           = elems (subscription_arrays h0) (Subscriptions (lookup_config d c))"
    and "elems (tagSubscription_arrays (mem s)) (TagSubscriptions (lookup_config d c))
           = elems (tagSubscription_arrays h0) (TagSubscriptions (lookup_config d c))"
proof -
  have "valid_slice (subscription_arrays (mem s)) (Subscriptions (lookup_config d c))
      \<and> valid_slice (tagSubscription_arrays (mem s)) (TagSubscriptions (lookup_config d c))
      \<and> elems (subscription_arrays (mem s)) (Subscriptions (lookup_config d c))
           = elems (subscription_arrays h0) (Subscriptions (lookup_config d c))
      \<and> elems (tagSubscription_arrays (mem s)) (TagSubscriptions (lookup_config d c))
           = elems (tagSubscription_arrays h0) (TagSubscriptions (lookup_config d c))"
  proof (cases "SharedCommonConfigs d c")
    case None
    then show ?thesis
      by (simp add: lookup_config_def zero_SharedConfig_def valid_nil elems_nil)
  next
    case (Some u)
    then have "u \<in> ran (SharedCommonConfigs d)"
      by (rule ranI)
    with assms Some show ?thesis
      by (simp add: lookup_config_def frame_inv_def kept_def)
  qed
  then show "valid_slice (subscription_arrays (mem s)) (Subscriptions (lookup_config d c))"
    and "valid_slice (tagSubscription_arrays (mem s)) (TagSubscriptions (lookup_config d c))"
    and "elems (subscription_arrays (mem s)) (Subscriptions (lookup_config d c))
           = elems (subscription_arrays h0) (Subscriptions (lookup_config d c))"
    and "elems (tagSubscription_arrays (mem s)) (TagSubscriptions (lookup_config d c))
           = elems (tagSubscription_arrays h0) (TagSubscriptions (lookup_config d c))"
    by simp_all
qed

lemma lookup_config_full:
  assumes "templates_full d"
  shows "clear_of (Subscriptions (lookup_config d c)) t"
    and "clear_of (TagSubscriptions (lookup_config d c)) t"
proof -
  have "len (Subscriptions (lookup_config d c)) = cap (Subscriptions (lookup_config d c))
      \<and> len (TagSubscriptions (lookup_config d c)) = cap (TagSubscriptions (lookup_config d c))"
  proof (cases "SharedCommonConfigs d c")
    case None
    then show ?thesis
      by (simp add: lookup_config_def zero_SharedConfig_def nil_slice_def)
  next
    case (Some u)
    then have "u \<in> ran (SharedCommonConfigs d)"
      by (rule ranI)
    with assms Some show ?thesis
      by (simp add: lookup_config_def templates_full_def)
  qed
  then show "clear_of (Subscriptions (lookup_config d c)) t"
    and "clear_of (TagSubscriptions (lookup_config d c)) t"
    by (simp_all add: clear_of_def)
qed

lemma lookup_config_owned:
  assumes "frame_inv d h0 s" and "templates_full d"
  shows "owned (subscription_arrays (mem s)) (Subscriptions (lookup_config d c))"
    and "owned (tagSubscription_arrays (mem s)) (TagSubscriptions (lookup_config d c))"
proof -
  have f: "len (Subscriptions (lookup_config d c)) = cap (Subscriptions (lookup_config d c))
      \<and> len (TagSubscriptions (lookup_config d c)) = cap (TagSubscriptions (lookup_config d c))"
  proof (cases "SharedCommonConfigs d c")
    case None
    then show ?thesis
      by (simp add: lookup_config_def zero_SharedConfig_def nil_slice_def)
  next
    case (Some u)
    then have "u \<in> ran (SharedCommonConfigs d)"
      by (rule ranI)
    with assms(2) Some show ?thesis
      by (simp add: lookup_config_def templates_full_def)
  qed
  show "owned (subscription_arrays (mem s)) (Subscriptions (lookup_config d c))"
    using lookup_config_valid(1) [OF assms(1), of c] f
    by (auto simp: owned_def valid_slice_def)
  show "owned (tagSubscription_arrays (mem s)) (TagSubscriptions (lookup_config d c))"
    using lookup_config_valid(2) [OF assms(1), of c] f
    by (auto simp: owned_def valid_slice_def)
qed

lemma effective_frame:
  assumes "frame_inv d h0 s"
  shows "effective_subscriptions d (mem s) x = effective_subscriptions d h0 x"
    and "effective_tag_subscriptions d (mem s) x = effective_tag_subscriptions d h0 x"
  using lookup_config_valid(3,4) [OF assms]
  by (simp_all add: effective_subscriptions_def effective_tag_subscriptions_def)

lemma effective_declared:
  assumes "declared x = declared y"
  shows "effective_subscriptions d h x = effective_subscriptions d h y"
    and "effective_tag_subscriptions d h x = effective_tag_subscriptions d h y"
  using assms
  by (simp_all add: declared_def effective_subscriptions_def effective_tag_subscriptions_def)

lemma creator_snoc:
  "creator (ds @ [x]) k =
     (case creator ds k of Some c \<Rightarrow> Some c | None \<Rightarrow> if groupKey x = k then Some x else None)"
  by (simp add: creator_def find_snoc)

lemma creator_None: "creator ds k = None \<longleftrightarrow> k \<notin> groupKey ` set ds"
  by (auto simp: creator_def find_None_iff)

lemma creator_Some: "creator ds k = Some c \<Longrightarrow> c \<in> set ds \<and> groupKey c = k"
  using find_SomeD [of "\<lambda>x. groupKey x = k" ds c] by (simp add: creator_def)

lemma creator_seen:
  assumes "k \<in> groupKey ` set ds"
  shows "creator (ds @ [x]) k = creator ds k"
proof -
  from assms have "creator ds k \<noteq> None"
    by (simp add: creator_None)
  then show ?thesis
    by (auto simp: creator_snoc)
qed

lemma new_group_built:
  assumes fi: "frame_inv d h0 s" and full: "templates_full d" and b: "built d h0 ds s"
    and new: "groupMap s (groupKey x) = None"
  shows "built d h0 (ds @ [x]) (new_group slack d x s)"
proof -
  let ?c = "lookup_config d (dev_SharedConfig x)"
  obtain st1 subs1 lg1 st2 tsubs2 lg2 where
    1: "append_shared slack warn_subscription subscription (shared_Subscriptions d)
       (dev_Subscriptions x) (subscription_arrays (mem s), Subscriptions ?c, warnings s)
     = (st1, subs1, lg1)"
    and 2: "append_shared slack warn_tag_subscription tagSubscription (shared_TagSubscriptions d)
       (dev_TagSubscriptions x) (tagSubscription_arrays (mem s), TagSubscriptions ?c, lg1)
     = (st2, tsubs2, lg2)"
    and n: "new_group slack d x s =
       s\<lparr>groupMap := (groupMap s)(groupKey x \<mapsto>
             ?c\<lparr>Subscriptions := subs1, TagSubscriptions := tsubs2\<rparr>),
         mem := (mem s)\<lparr>subscription_arrays := st1, tagSubscription_arrays := st2\<rparr>,
         warnings := lg2\<rparr>"
    by (rule new_group_cases)
  note o = lookup_config_owned [OF fi full, of "dev_SharedConfig x"]
  have v1: "valid_slice st1 subs1" and v2: "valid_slice st2 tsubs2"
    using append_shared_owned [OF 1 o(1)] append_shared_owned [OF 2 o(2)]
    by (simp_all add: owned_valid)
  have e1: "elems st1 subs1 = effective_subscriptions d h0 x"
    using append_shared_elems [OF 1] o(1) effective_frame(1) [OF fi, of x]
    by (simp add: owned_def effective_subscriptions_def)
  have e2: "elems st2 tsubs2 = effective_tag_subscriptions d h0 x"
    using append_shared_elems [OF 2] o(2) effective_frame(2) [OF fi, of x]
    by (simp add: owned_def effective_tag_subscriptions_def)
  have dm: "dom (groupMap s) = groupKey ` set ds"
    using b by (simp add: built_def)
  have unseen: "groupKey x \<notin> groupKey ` set ds"
    using new dm by (auto simp: domIff)
  have cx: "creator (ds @ [x]) (groupKey x) = Some x"
    using unseen by (simp add: creator_snoc iffD2 [OF creator_None])
  have old: "valid_slice st1 (Subscriptions g) \<and> valid_slice st2 (TagSubscriptions g)
      \<and> elems st1 (Subscriptions g) = elems (subscription_arrays (mem s)) (Subscriptions g)
      \<and> elems st2 (TagSubscriptions g) = elems (tagSubscription_arrays (mem s)) (TagSubscriptions g)"
    if "groupMap s k = Some g" for k g
  proof -
    have "valid_slice (subscription_arrays (mem s)) (Subscriptions g)"
      and "valid_slice (tagSubscription_arrays (mem s)) (TagSubscriptions g)"
      using b that by (auto simp: built_def)
    with append_shared_frame [OF 1 _ lookup_config_full(1) [OF full]]
      append_shared_frame [OF 2 _ lookup_config_full(2) [OF full]]
    show ?thesis by simp
  qed
  have "dom (groupMap (new_group slack d x s)) = groupKey ` set (ds @ [x])"
    using dm by (auto simp: n)
  moreover have "valid_slice (subscription_arrays (mem (new_group slack d x s))) (Subscriptions g) \<and>
        valid_slice (tagSubscription_arrays (mem (new_group slack d x s))) (TagSubscriptions g) \<and>
        (\<forall>c. creator (ds @ [x]) k = Some c \<longrightarrow>
           elems (subscription_arrays (mem (new_group slack d x s))) (Subscriptions g)
             = effective_subscriptions d h0 c \<and>
           elems (tagSubscription_arrays (mem (new_group slack d x s))) (TagSubscriptions g)
             = effective_tag_subscriptions d h0 c)"
    if g: "groupMap (new_group slack d x s) k = Some g" for k g
  proof (cases "k = groupKey x")
    case True
    with g have "g = ?c\<lparr>Subscriptions := subs1, TagSubscriptions := tsubs2\<rparr>"
      by (simp add: n)
    with True v1 v2 e1 e2 cx show ?thesis
      by (simp add: n)
  next
    case False
    with g have gs: "groupMap s k = Some g"
      by (simp add: n)
    then have "k \<in> groupKey ` set ds"
      using dm by blast
    then have ck: "creator (ds @ [x]) k = creator ds k"
      by (rule creator_seen)
    have "elems (subscription_arrays (mem s)) (Subscriptions g) = effective_subscriptions d h0 c
        \<and> elems (tagSubscription_arrays (mem s)) (TagSubscriptions g) = effective_tag_subscriptions d h0 c"
      if "creator ds k = Some c" for c
      using b gs that unfolding built_def by blast
    with old [OF gs] show ?thesis
      by (simp add: n ck)
  qed
  ultimately show ?thesis
    unfolding built_def by blast
qed

lemma device_step_built:
  assumes step: "device_step slack d s x = Some s'"
    and fi: "frame_inv d h0 s" and full: "templates_full d" and b: "built d h0 ds s"
  shows "built d h0 (ds @ [x]) s'"
proof -
  let ?b = "before_append slack d s x"
  from step obtain g st' a' where
      g: "groupMap ?b (groupKey x) = Some g"
      and "string_arrays (mem s') = st'"
      and gm: "groupMap s' = (groupMap ?b)(groupKey x \<mapsto> g\<lparr>Addresses := a'\<rparr>)"
    by (rule device_step_cases)
  have bb: "built d h0 (ds @ [x]) ?b"
  proof (cases "groupMap s (groupKey x)")
    case None
    with new_group_built [OF fi full b None] show ?thesis
      by (simp add: before_append_def)
  next
    case (Some g0)
    have dm: "dom (groupMap s) = groupKey ` set ds"
      using b by (simp add: built_def)
    with Some have seen: "groupKey x \<in> groupKey ` set ds"
      by blast
    have "dom (groupMap s) = groupKey ` set (ds @ [x])"
      using dm seen by auto
    moreover have "elems (subscription_arrays (mem s)) (Subscriptions g')
             = effective_subscriptions d h0 c \<and>
           elems (tagSubscription_arrays (mem s)) (TagSubscriptions g')
             = effective_tag_subscriptions d h0 c"
      if "groupMap s k = Some g'" "creator (ds @ [x]) k = Some c" for k g' c
    proof -
      from that(1) dm have "k \<in> groupKey ` set ds"
        by blast
      with that(2) have "creator ds k = Some c"
        by (simp add: creator_seen)
      with b that(1) show ?thesis
        unfolding built_def by blast
    qed
    ultimately have "built d h0 (ds @ [x]) s"
      using b unfolding built_def by blast
    with Some show ?thesis
      by (simp add: before_append_def)
  qed
  have same: "\<exists>h'. groupMap ?b k = Some h' \<and> Subscriptions h = Subscriptions h'
      \<and> TagSubscriptions h = TagSubscriptions h'" if "groupMap s' k = Some h" for k h
  proof (cases "k = groupKey x")
    case True
    with that have "h = g\<lparr>Addresses := a'\<rparr>"
      by (simp add: gm)
    with True g show ?thesis by simp
  next
    case False
    with that show ?thesis by (simp add: gm)
  qed
  have A: "dom (groupMap s') = groupKey ` set (ds @ [x])"
    using bb g by (auto simp: gm built_def)
  have B: "\<forall>k h. groupMap s' k = Some h \<longrightarrow>
        valid_slice (subscription_arrays (mem s')) (Subscriptions h) \<and>
        valid_slice (tagSubscription_arrays (mem s')) (TagSubscriptions h) \<and>
        (\<forall>c. creator (ds @ [x]) k = Some c \<longrightarrow>
           elems (subscription_arrays (mem s')) (Subscriptions h)
             = effective_subscriptions d h0 c \<and>
           elems (tagSubscription_arrays (mem s')) (TagSubscriptions h)
             = effective_tag_subscriptions d h0 c)"
  proof (intro allI impI)
    fix k h assume "groupMap s' k = Some h"
    from same [OF this] obtain h' where h': "groupMap ?b k = Some h'"
        "Subscriptions h = Subscriptions h'" "TagSubscriptions h = TagSubscriptions h'"
      by blast
    from bb h'(1)
    have "valid_slice (subscription_arrays (mem ?b)) (Subscriptions h') \<and>
        valid_slice (tagSubscription_arrays (mem ?b)) (TagSubscriptions h') \<and>
        (\<forall>c. creator (ds @ [x]) k = Some c \<longrightarrow>
           elems (subscription_arrays (mem ?b)) (Subscriptions h')
             = effective_subscriptions d h0 c \<and>
           elems (tagSubscription_arrays (mem ?b)) (TagSubscriptions h')
             = effective_tag_subscriptions d h0 c)"
      unfolding built_def by blast
    then show "valid_slice (subscription_arrays (mem s')) (Subscriptions h) \<and>
        valid_slice (tagSubscription_arrays (mem s')) (TagSubscriptions h) \<and>
        (\<forall>c. creator (ds @ [x]) k = Some c \<longrightarrow>
           elems (subscription_arrays (mem s')) (Subscriptions h)
             = effective_subscriptions d h0 c \<and>
           elems (tagSubscription_arrays (mem s')) (TagSubscriptions h)
             = effective_tag_subscriptions d h0 c)"
      by (simp only: device_step_stores(1,2) [OF step] h'(2,3)) blast
  qed
  show ?thesis
    unfolding built_def using A B by (rule conjI)
qed

lemma key_faithfulD:
  assumes "key_faithful ds" and "x \<in> set ds" and "y \<in> set ds" and "groupKey x = groupKey y"
  shows "declared x = declared y"
  using assms unfolding key_faithful_def by blast

lemma devices_loop_built:
  assumes "devices_loop slack d rest s = Some s'"
    and "templates_ok d h0" and "templates_full d"
    and "frame_inv d h0 s" and "built d h0 ds s"
  shows "built d h0 (ds @ rest) s'"
  using assms(1,4,5)
proof (induction rest arbitrary: ds s)
  case Nil
  then show ?case by simp
next
  case (Cons x rest)
  from Cons.prems(1) obtain s1 where
      s1: "device_step slack d s x = Some s1" and r: "devices_loop slack d rest s1 = Some s'"
    by (auto split: option.splits)
  have b1: "built d h0 (ds @ [x]) s1"
    by (rule device_step_built [OF s1 Cons.prems(2) assms(3) Cons.prems(3)])
  have f1: "frame_inv d h0 s1"
    by (rule device_step_frame [OF s1 assms(2) Cons.prems(2)])
  from Cons.IH [OF r f1 b1] show ?case
    by simp
qed

lemma built_start: "built d h [] (start_state h)"
  by (simp add: built_def start_state_def)

lemma resolve_built:
  assumes "resolve slack d h = Some s" and "templates_ok d h" and "templates_full d"
  shows "built d h (Devices d) s"
  using devices_loop_built [OF assms(1) [unfolded resolve_def] assms(2,3)
          frame_start [OF assms(2)] built_start]
  by simp

lemma built_group:
  assumes "built d h ds s" and "groupMap s k = Some g" and "creator ds k = Some c"
  shows "elems (subscription_arrays (mem s)) (Subscriptions g) = effective_subscriptions d h c"
    and "elems (tagSubscription_arrays (mem s)) (TagSubscriptions g)
           = effective_tag_subscriptions d h c"
  using assms unfolding built_def by blast+

lemma collected_group:
  assumes "range_order gm ks" and "gm k = Some g"
  shows "g \<in> set (slice_list (collect_groups gm ks None))"
proof -
  have "k \<in> set ks"
    using assms by (auto simp: range_order_def)
  then have "the (gm k) \<in> set (map (\<lambda>k. the (gm k)) ks)"
    by simp
  then show ?thesis
    by (simp add: collect_groups_the [OF assms(1)] assms(2))
qed

subsection \<open>The keys of the groups\<close>

lemma devices_loop_dom:
  assumes "devices_loop slack d ds s = Some s'"
  shows "dom (groupMap s') = dom (groupMap s) \<union> groupKey ` set ds"
  using assms
proof (induction ds arbitrary: s)
  case Nil
  then show ?case by simp
next
  case (Cons x ds)
  from Cons.prems obtain s1 where
      s1: "device_step slack d s x = Some s1" and r: "devices_loop slack d ds s1 = Some s'"
    by (auto split: option.splits)
  from Cons.IH [OF r] device_step_dom [OF s1] show ?case
    by auto
qed

lemma resolve_dom:
  assumes "resolve slack d h = Some s"
  shows "dom (groupMap s) = groupKey ` set (Devices d)"
  using devices_loop_dom [OF assms [unfolded resolve_def]] by (simp add: start_state_def)

lemma range_order_devices:
  assumes "resolve slack d h = Some s" and "range_order (groupMap s) ks"
  shows "mset ks = mset (first_seen (map groupKey (Devices d)))"
  using assms(2) resolve_dom [OF assms(1)]
  by (intro iffD1 [OF set_eq_iff_mset_eq_distinct]) (simp_all add: range_order_def)

lemma collect_groups_Some:
  assumes "range_order gm ks"
  shows "map Some (slice_list (collect_groups gm ks None)) = map gm ks"
proof -
  have "\<forall>k\<in>set ks. \<exists>g. gm k = Some g \<and> Some g = gm k"
    using assms by (auto simp: range_order_def)
  from collect_groups_map [OF this, of None] show ?thesis
    by (simp add: slice_list_def)
qed

subsection \<open>Two resolutions of one inventory\<close>

lemma resolve_frame:
  assumes "resolve slack d h = Some s" and "templates_ok d h"
  shows "frame_inv d h s"
  by (rule devices_loop_frame [OF assms(1) [unfolded resolve_def] assms(2) frame_start [OF assms(2)]])

lemma lookup_config_view:
  assumes "frame_inv d h0 s"
  shows "group_view (mem s) (lookup_config d c) = group_view h0 (lookup_config d c)"
proof (cases "SharedCommonConfigs d c")
  case None
  then show ?thesis
    by (simp add: group_view_def lookup_config_def zero_SharedConfig_def elems_nil)
next
  case (Some u)
  then have "u \<in> ran (SharedCommonConfigs d)"
    by (rule ranI)
  with assms Some show ?thesis
    by (simp add: group_view_def lookup_config_def frame_inv_def kept_def)
qed

lemma resolve_leaves_inventory:
  assumes "resolve slack d h = Some s" and "templates_ok d h"
  shows "same_inventory d h d (mem s)" and "templates_ok d (mem s)"
proof -
  note fi = resolve_frame [OF assms]
  show "same_inventory d h d (mem s)"
    by (simp add: same_inventory_def lookup_config_view [OF fi])
  show "templates_ok d (mem s)"
    using assms(2) fi by (simp add: templates_ok_def slices_ok_def frame_inv_def kept_def)
qed

lemma resolve_leaves_plain:
  assumes "resolve slack d h = Some s" and "plain_templates d h"
  shows "plain_templates d (mem s)"
  using assms resolve_leaves_inventory(2) [OF assms(1)] by (simp add: plain_templates_def)








section \<open>Properties of the resolver\<close>

subsection \<open>Tags\<close>

text \<open>
  Claim C3. After \<^verbatim>\<open>init\<close> has resolved an inventory, \<^verbatim>\<open>GetTags\<close> of an address that a
  device declares returns, with a nil error, the device-local tag map overlaid with the
  tag maps of the shared tag groups that the device references, in the order of their
  declaration. For every tag key the last referenced group that has the key decides, and
  the local tag counts only when no referenced group has the key. The device is the last
  one of the inventory with that address, which is the only one when addresses are
  unique.
\<close>

theorem GetTags_overlay:
  assumes "init slack ks (Inr d) h logger f = Some (err, f', h')"
    and "last_device address (Devices d) = Some x"
  shows "GetTags f' address
           = (overlay (Tags x) (referenced_tags (SharedTags d) (SharedTagGroups x)), None)
         \<and> (\<forall>key. fst (GetTags f' address) key
                 = precedence (Tags x) (referenced_tags (SharedTags d) (SharedTagGroups x)) key)"
proof -
  from assms(1) obtain s where s: "resolve slack d h = Some s"
      and f': "f' = f\<lparr>Log := logger @ warnings s, sharedTags := SharedTags d,
                       deviceTags := tagMap s,
                       collectorConfigs := collect_groups (groupMap s) ks None\<rparr>"
    by (rule init_cases)
  have "tagMap s address = Some (binding x)"
    by (simp add: resolve_tagMap [OF s] assms(2))
  then have "GetTags f' address
      = (overlay (Tags x) (referenced_tags (SharedTags d) (SharedTagGroups x)), None)"
    by (simp add: GetTags_def f' binding_def foldl_extend_tags)
  then show ?thesis
    by (simp add: overlay_precedence)
qed

theorem GetTags_overlay_witness:
  "last_device ''10.0.0.1'' (Devices tagged_inventory) = Some tagged_device \<and>
   (case init no_slack [groupKey tagged_device] (Inr tagged_inventory) empty_heap []
           (new_injector ''devices.json'') of
      None \<Rightarrow> False
    | Some (err, f', h') \<Rightarrow>
        err = None \<and> GetTags f' ''10.0.0.1'' = ([''env'' \<mapsto> ''prod'', ''region'' \<mapsto> ''us''], None))"
proof -
  have l: "last_device ''10.0.0.1'' (Devices tagged_inventory) = Some tagged_device"
    by (simp add: last_device_def tagged_inventory_def tagged_device_def device_def)
  obtain f' h' where i: "init no_slack [groupKey tagged_device] (Inr tagged_inventory) empty_heap []
      (new_injector ''devices.json'') = Some (None, f', h')"
    using tagged_init by blast
  have "overlay (Tags tagged_device)
          (referenced_tags (SharedTags tagged_inventory) (SharedTagGroups tagged_device))
        = [''env'' \<mapsto> ''prod'', ''region'' \<mapsto> ''us'']"
    by (auto simp: overlay_def referenced_tags_def tagged_inventory_def
          tagged_device_def device_def no_devices_def map_add_def fun_eq_iff)
  with GetTags_overlay [OF i l] l i show ?thesis
    by simp
qed

text \<open>
  Claim C5. After \<^verbatim>\<open>init\<close> has resolved an inventory, \<^verbatim>\<open>GetTags\<close> of an address that no
  device of the inventory declares returns the empty map and a nil error.
\<close>

theorem GetTags_unknown_address:
  assumes "init slack ks (Inr d) h logger f = Some (err, f', h')"
    and "address \<notin> Address ` set (Devices d)"
  shows "GetTags f' address = (Map.empty, None)"
proof -
  from assms(1) obtain s where s: "resolve slack d h = Some s"
      and f': "f' = f\<lparr>Log := logger @ warnings s, sharedTags := SharedTags d,
                       deviceTags := tagMap s,
                       collectorConfigs := collect_groups (groupMap s) ks None\<rparr>"
    by (rule init_cases)
  have "last_device address (Devices d) = None"
    using assms(2) by (simp add: last_device_None)
  then have "tagMap s address = None"
    by (simp add: resolve_tagMap [OF s])
  then show ?thesis
    by (simp add: GetTags_def f')
qed

theorem GetTags_unknown_address_witness:
  "''10.0.0.99'' \<notin> Address ` set (Devices tagged_inventory) \<and>
   (case init no_slack [groupKey tagged_device] (Inr tagged_inventory) empty_heap []
           (new_injector ''devices.json'') of
      None \<Rightarrow> False
    | Some (err, f', h') \<Rightarrow> err = None \<and> GetTags f' ''10.0.0.99'' = (Map.empty, None))"
proof -
  have a: "''10.0.0.99'' \<notin> Address ` set (Devices tagged_inventory)"
    by (simp add: tagged_inventory_def tagged_device_def device_def)
  obtain f' h' where i: "init no_slack [groupKey tagged_device] (Inr tagged_inventory) empty_heap []
      (new_injector ''devices.json'') = Some (None, f', h')"
    using tagged_init by blast
  from GetTags_unknown_address [OF i a] a i show ?thesis
    by simp
qed

subsection \<open>Access before and after resolution\<close>

text \<open>
  Claim C4. \<^verbatim>\<open>GetConfigs\<close> on an injector that has not been initialised returns the nil
  group list and the error "gnmi collector configs are not initialized", and so it does
  after an \<^verbatim>\<open>init\<close> that failed to load the inventory.
\<close>

theorem GetConfigs_before_resolve:
  "GetConfigs (new_injector path) addresses = (None, Some not_initialized) \<and>
   (\<exists>f' h'. init slack ks (Inl err) h logger (new_injector path) = Some (Some err, f', h')
       \<and> GetConfigs f' addresses = (None, Some not_initialized))"
  by (simp add: GetConfigs_def new_injector_def init_def)

text \<open>
  Claim C9. When the device list of the inventory is empty, \<^verbatim>\<open>init\<close> returns a nil error
  and stores the nil group list, so that \<^verbatim>\<open>GetConfigs\<close> still returns the "not
  initialized" error.
\<close>

theorem empty_inventory_not_initialized:
  assumes "Devices d = []"
  shows "\<exists>f'. init slack ks (Inr d) h logger f = Some (None, f', h) \<and> collectorConfigs f' = None
            \<and> GetConfigs f' addresses = (None, Some not_initialized)"
proof -
  have r: "resolve slack d h = Some (start_state h)"
    using assms by (simp add: resolve_def)
  have "collect_groups (groupMap (start_state h)) ks None = None"
    by (simp add: collect_groups_nil start_state_def)
  then show ?thesis
    by (simp add: init_loaded [OF r] GetConfigs_def start_state_def)
qed

theorem empty_inventory_not_initialized_witness:
  "Devices no_devices = [] \<and>
   (\<exists>f'. init no_slack [] (Inr no_devices) empty_heap [] (new_injector ''devices.json'')
            = Some (None, f', empty_heap)
        \<and> GetConfigs f' [''10.0.0.1''] = (None, Some not_initialized))"
proof -
  have e: "Devices no_devices = []"
    by (simp add: no_devices_def)
  from empty_inventory_not_initialized [OF e] e show ?thesis
    by blast
qed

subsection \<open>Grouping\<close>

text \<open>
  Claim C1, as the code has it. The grouping key is formatted from the references that the
  device declares, not from the sequences they resolve to. In an inventory whose templates
  carry no addresses, whose device addresses are distinct and whose formatted keys tell
  the declared references apart, two devices have their addresses in one group of the
  result if and only if they declare the same subscription references, the same
  common-config ID and the same tag-subscription references.
\<close>

theorem same_group_iff_same_references:
  assumes "resolve slack d h = Some s" and "range_order (groupMap s) ks"
    and "groupDevices slack ks d h = Some (groups, tg, h', lg)"
    and "templates_without_addresses d"
    and "distinct (map Address (Devices d))"
    and "key_faithful (Devices d)"
    and "x \<in> set (Devices d)" and "y \<in> set (Devices d)"
  shows "(\<exists>g\<in>set (slice_list groups).
            Address x \<in> set (group_addresses h' g) \<and> Address y \<in> set (group_addresses h' g))
         \<longleftrightarrow> declared x = declared y"
proof -
  have "groups = collect_groups (groupMap s) ks None" and "h' = mem s"
    using assms(3) by (simp_all add: groupDevices_def assms(1))
  then have m: "map (group_addresses h') (slice_list groups) = map (members (Devices d)) ks"
    using groups_addresses [OF assms(1,2,4)] by simp
  have "(\<exists>g\<in>set (slice_list groups).
            Address x \<in> set (group_addresses h' g) \<and> Address y \<in> set (group_addresses h' g))
        \<longleftrightarrow> (\<exists>v\<in>set (map (group_addresses h') (slice_list groups)).
               Address x \<in> set v \<and> Address y \<in> set v)"
    by auto
  also have "\<dots> \<longleftrightarrow> (\<exists>k\<in>set ks. Address x \<in> set (members (Devices d) k)
                          \<and> Address y \<in> set (members (Devices d) k))"
    unfolding m by auto
  also have "\<dots> \<longleftrightarrow> (\<exists>k\<in>set ks. groupKey x = k \<and> groupKey y = k)"
    by (simp only: member_address [OF assms(5,7)] member_address [OF assms(5,8)])
  also have "\<dots> \<longleftrightarrow> groupKey x = groupKey y"
  proof -
    have "groupKey x \<in> set ks"
      using range_order_keys(2) [OF assms(1,2,4)] assms(7) by simp
    then show ?thesis by metis
  qed
  also have "\<dots> \<longleftrightarrow> declared x = declared y"
    using assms(6-8) groupKey_declared [of x y] unfolding key_faithful_def by blast
  finally show ?thesis .
qed

theorem same_group_iff_same_references_witness:
  "templates_without_addresses two_groups \<and>
   distinct (map Address (Devices two_groups)) \<and>
   key_faithful (Devices two_groups) \<and>
   device ''A'' [''g1''] [] \<in> set (Devices two_groups) \<and>
   device ''B'' [''g2''] [] \<in> set (Devices two_groups) \<and>
   (case resolve no_slack two_groups empty_heap of
      None \<Rightarrow> False | Some s \<Rightarrow> range_order (groupMap s) [key_A, key_B]) \<and>
   (case groupDevices no_slack [key_A, key_B] two_groups empty_heap of
      None \<Rightarrow> False
    | Some (groups, tg, h', lg) \<Rightarrow>
        ((\<exists>g\<in>set (slice_list groups).
             Address (device ''A'' [''g1''] []) \<in> set (group_addresses h' g) \<and>
             Address (device ''B'' [''g2''] []) \<in> set (group_addresses h' g))
         \<longleftrightarrow> declared (device ''A'' [''g1''] []) = declared (device ''B'' [''g2''] [])))"
proof -
  obtain s where s: "resolve no_slack two_groups empty_heap = Some s"
    using resolve_total by blast
  note o = two_groups_orders(1) [OF s] and g = groupDevices_resolved [OF s, of "[key_A, key_B]"]
  have dist: "distinct (map Address (Devices two_groups))"
    by (simp add: two_groups_devices device_def)
  have a: "device ''A'' [''g1''] [] \<in> set (Devices two_groups)"
    and b: "device ''B'' [''g2''] [] \<in> set (Devices two_groups)"
    by (simp_all add: two_groups_devices)
  from same_group_iff_same_references [OF s o g two_groups_plain dist two_groups_faithful a b]
  show ?thesis
    using two_groups_plain dist two_groups_faithful a b o by (simp add: s g)
qed

text \<open>
  Claim C1 as stated fails: the two devices of \<open>two_groups\<close> have equal effective
  subscriptions, equal effective tag-subscriptions and the same common-config ID, and
  their addresses are in different groups.
\<close>

theorem same_effective_counterexample:
  "effective_subscriptions two_groups empty_heap (device ''A'' [''g1''] [])
     = effective_subscriptions two_groups empty_heap (device ''B'' [''g2''] []) \<and>
   effective_tag_subscriptions two_groups empty_heap (device ''A'' [''g1''] [])
     = effective_tag_subscriptions two_groups empty_heap (device ''B'' [''g2''] []) \<and>
   dev_SharedConfig (device ''A'' [''g1''] []) = dev_SharedConfig (device ''B'' [''g2''] []) \<and>
   Devices two_groups = [device ''A'' [''g1''] [], device ''B'' [''g2''] []] \<and>
   (case resolve no_slack two_groups empty_heap of
      None \<Rightarrow> False | Some s \<Rightarrow> range_order (groupMap s) [key_A, key_B]) \<and>
   (case groupDevices no_slack [key_A, key_B] two_groups empty_heap of
      None \<Rightarrow> False
    | Some (groups, tg, h', lg) \<Rightarrow>
        map (group_addresses h') (slice_list groups) = [[''A''], [''B'']] \<and>
        \<not> (\<exists>g\<in>set (slice_list groups).
              ''A'' \<in> set (group_addresses h' g) \<and> ''B'' \<in> set (group_addresses h' g)))"
proof -
  obtain s where s: "resolve no_slack two_groups empty_heap = Some s"
    using resolve_total by blast
  note o = two_groups_orders(1) [OF s] and g = groupDevices_resolved [OF s, of "[key_A, key_B]"]
  have m: "map (group_addresses (mem s)) (slice_list (collect_groups (groupMap s) [key_A, key_B] None))
          = [[''A''], [''B'']]"
    using groups_addresses [OF s o two_groups_plain] by (simp add: two_groups_members)
  have "\<not> (\<exists>v\<in>set (map (group_addresses (mem s))
               (slice_list (collect_groups (groupMap s) [key_A, key_B] None))).
            ''A'' \<in> set v \<and> ''B'' \<in> set v)"
    unfolding m by simp
  then have "\<not> (\<exists>g\<in>set (slice_list (collect_groups (groupMap s) [key_A, key_B] None)).
            ''A'' \<in> set (group_addresses (mem s) g) \<and> ''B'' \<in> set (group_addresses (mem s) g))"
    by simp
  with m show ?thesis
    by (simp add: s o g two_groups_effective) (simp add: two_groups_def device_def)
qed

text \<open>
  Claim C2, as the code has it. The result holds the groups of \<open>groupMap\<close>, one for
  each distinct grouping key, in the order in which the range loop visits the keys; that
  order is a permutation of the first-occurrence order of the keys and the code does not
  fix it. When the templates carry no addresses, the member addresses of each group are
  those of the devices with the key of the group, in inventory order.
\<close>

theorem groups_in_range_order:
  assumes "resolve slack d h = Some s" and "range_order (groupMap s) ks"
    and "groupDevices slack ks d h = Some (groups, tg, h', lg)"
  shows "mset ks = mset (first_seen (map groupKey (Devices d)))
         \<and> map Some (slice_list groups) = map (groupMap s) ks
         \<and> (templates_without_addresses d \<longrightarrow>
              map (group_addresses h') (slice_list groups) = map (members (Devices d)) ks)"
proof -
  have eq: "groups = collect_groups (groupMap s) ks None" "h' = mem s"
    using assms(3) by (simp_all add: groupDevices_def assms(1))
  have "map (group_addresses h') (slice_list groups) = map (members (Devices d)) ks"
    if "templates_without_addresses d"
    using groups_addresses [OF assms(1,2) that] by (simp add: eq)
  with range_order_devices [OF assms(1,2)] collect_groups_Some [OF assms(2)] show ?thesis
    by (simp add: eq)
qed

theorem groups_in_range_order_witness:
  "(case resolve no_slack two_groups empty_heap of
      None \<Rightarrow> False | Some s \<Rightarrow> range_order (groupMap s) [key_B, key_A]) \<and>
   templates_without_addresses two_groups \<and>
   (case groupDevices no_slack [key_B, key_A] two_groups empty_heap of
      None \<Rightarrow> False
    | Some (groups, tg, h', lg) \<Rightarrow>
        mset [key_B, key_A] = mset (first_seen (map groupKey (Devices two_groups))) \<and>
        length (slice_list groups) = 2 \<and>
        map (group_addresses h') (slice_list groups) = [[''B''], [''A'']])"
proof -
  obtain s where s: "resolve no_slack two_groups empty_heap = Some s"
    using resolve_total by blast
  note o = two_groups_orders(2) [OF s] and g = groupDevices_resolved [OF s, of "[key_B, key_A]"]
  from groups_in_range_order [OF s o g] have
    1: "mset [key_B, key_A] = mset (first_seen (map groupKey (Devices two_groups)))"
    and 2: "map Some (slice_list (collect_groups (groupMap s) [key_B, key_A] None))
            = map (groupMap s) [key_B, key_A]"
    and 3: "map (group_addresses (mem s)) (slice_list (collect_groups (groupMap s) [key_B, key_A] None))
            = map (members (Devices two_groups)) [key_B, key_A]"
    using two_groups_plain by simp_all
  from 2 have "length (slice_list (collect_groups (groupMap s) [key_B, key_A] None)) = 2"
    using length_map [of Some "slice_list (collect_groups (groupMap s) [key_B, key_A] None)"]
    by simp
  with 1 3 show ?thesis
    using o two_groups_plain by (simp add: s g two_groups_members)
qed

text \<open>
  Claim C2 as stated fails: a range loop that visits the key of the second device first
  returns the groups of \<open>two_groups\<close> in the reverse of the first-occurrence order.
\<close>

theorem range_order_counterexample:
  "(case resolve no_slack two_groups empty_heap of
      None \<Rightarrow> False | Some s \<Rightarrow> range_order (groupMap s) [key_B, key_A]) \<and>
   (case groupDevices no_slack [key_B, key_A] two_groups empty_heap of
      None \<Rightarrow> False
    | Some (groups, tg, h', lg) \<Rightarrow>
        map (group_addresses h') (slice_list groups) = [[''B''], [''A'']] \<and>
        map (group_addresses h') (slice_list groups)
          \<noteq> map (members (Devices two_groups)) (first_seen (map groupKey (Devices two_groups))))"
proof -
  obtain s where s: "resolve no_slack two_groups empty_heap = Some s"
    using resolve_total by blast
  have "map (group_addresses (mem s)) (slice_list (collect_groups (groupMap s) [key_B, key_A] None))
          = [[''B''], [''A'']]"
    using groups_addresses [OF s two_groups_orders(2) [OF s] two_groups_plain]
    by (simp add: two_groups_members)
  moreover have "map (members (Devices two_groups)) (first_seen (map groupKey (Devices two_groups)))
          = [[''A''], [''B'']]"
    using key_A_neq_B by (simp add: two_groups_keys two_groups_members)
  ultimately show ?thesis
    using two_groups_orders(2) [OF s] by (simp add: groupDevices_def s)
qed

text \<open>
  When two devices \<open>x\<close> and \<open>y\<close> declare the same address and no device after
  \<open>y\<close> does, the tag index binds the address to the tags and the shared tag group
  references of \<open>y\<close>, whatever the templates are. When the templates carry no
  addresses, the group of \<open>x\<close> and the group of \<open>y\<close> both list the address, and
  over all groups of the result the address occurs as often as devices declare it, which
  is at least twice.
\<close>

lemma duplicate_address_plain:
  assumes "resolve slack d h = Some s" and "range_order (groupMap s) ks"
    and "groupDevices slack ks d h = Some (groups, tg, h', lg)"
    and "Devices d = xs @ x # ys @ y # zs"
    and "Address x = a" and "Address y = a" and "a \<notin> Address ` set zs"
  shows "tg a = Some (binding y)
         \<and> 2 \<le> count_list (map Address (Devices d)) a
         \<and> (templates_without_addresses d \<longrightarrow>
               (\<forall>v\<in>{x, y}. \<exists>g\<in>set (slice_list groups).
                  group_addresses h' g = members (Devices d) (groupKey v)
                  \<and> a \<in> set (members (Devices d) (groupKey v)))
               \<and> (\<Sum>g\<leftarrow>slice_list groups. count_list (group_addresses h' g) a)
                     = count_list (map Address (Devices d)) a)"
proof -
  have eq: "groups = collect_groups (groupMap s) ks None" "tg = tagMap s" "h' = mem s"
    using assms(3) by (simp_all add: groupDevices_def assms(1))
  have "last_device a (Devices d) = Some y"
    using last_device_later [OF assms(6,7), of "xs @ x # ys"] by (simp add: assms(4))
  then have 1: "tg a = Some (binding y)"
    by (simp add: eq resolve_tagMap [OF assms(1)])
  have 4: "2 \<le> count_list (map Address (Devices d)) a"
    by (simp add: assms(4-6))
  have 5: "(\<forall>v\<in>{x, y}. \<exists>g\<in>set (slice_list groups).
                  group_addresses h' g = members (Devices d) (groupKey v)
                  \<and> a \<in> set (members (Devices d) (groupKey v)))
               \<and> (\<Sum>g\<leftarrow>slice_list groups. count_list (group_addresses h' g) a)
                     = count_list (map Address (Devices d)) a"
    if plain: "templates_without_addresses d"
  proof -
    have m: "map (group_addresses h') (slice_list groups) = map (members (Devices d)) ks"
      using groups_addresses [OF assms(1,2) plain] by (simp add: eq)
    have keys: "distinct ks" "set ks = groupKey ` set (Devices d)"
      using range_order_keys [OF assms(1,2) plain] by simp_all
    have 2: "\<exists>g\<in>set (slice_list groups).
               group_addresses h' g = members (Devices d) (groupKey v)
               \<and> a \<in> set (members (Devices d) (groupKey v))"
      if v: "v \<in> set (Devices d)" "Address v = a" for v
    proof -
      have "groupKey v \<in> set ks"
        using keys(2) v(1) by simp
      then have "members (Devices d) (groupKey v) \<in> set (map (group_addresses h') (slice_list groups))"
        unfolding m by simp
      moreover have "a \<in> set (members (Devices d) (groupKey v))"
        using v by (force simp: members_def)
      ultimately show ?thesis by auto
    qed
    have "(\<Sum>g\<leftarrow>slice_list groups. count_list (group_addresses h' g) a)
            = sum_list (map (\<lambda>v. count_list v a) (map (group_addresses h') (slice_list groups)))"
      by (simp add: comp_def)
    also have "\<dots> = (\<Sum>k\<leftarrow>ks. count_list (members (Devices d) k) a)"
      unfolding m by (simp add: comp_def)
    also have "\<dots> = count_list (map Address (Devices d)) a"
      using keys by (intro members_count) simp_all
    finally have 3: "(\<Sum>g\<leftarrow>slice_list groups. count_list (group_addresses h' g) a)
            = count_list (map Address (Devices d)) a" .
    from 2 [of x] 2 [of y] 3 show ?thesis
      by (simp add: assms(4-6))
  qed
  from 1 4 5 show ?thesis
    by blast
qed

lemma duplicate_address_plain_twins:
  "Devices twins = [] @ first_twin # [] @ second_twin # [] \<and>
   Address first_twin = ''10.0.0.1'' \<and> Address second_twin = ''10.0.0.1'' \<and>
   ''10.0.0.1'' \<notin> Address ` set [] \<and>
   templates_without_addresses twins \<and>
   (case resolve no_slack twins empty_heap of
      None \<Rightarrow> False | Some s \<Rightarrow> range_order (groupMap s) [key_A, key_B]) \<and>
   (case groupDevices no_slack [key_A, key_B] twins empty_heap of
      None \<Rightarrow> False
    | Some (groups, tg, h', lg) \<Rightarrow>
        tg ''10.0.0.1'' = Some (binding second_twin) \<and>
        tags (binding second_twin) = [''rack'' \<mapsto> ''r2''] \<and>
        map (group_addresses h') (slice_list groups) = [[''10.0.0.1''], [''10.0.0.1'']] \<and>
        (\<Sum>g\<leftarrow>slice_list groups. count_list (group_addresses h' g) ''10.0.0.1'') = 2)"
proof -
  obtain s where s: "resolve no_slack twins empty_heap = Some s"
    using resolve_total by blast
  note o = twins_order [OF s] and g = groupDevices_resolved [OF s, of "[key_A, key_B]"]
  have a: "Address first_twin = ''10.0.0.1''" "Address second_twin = ''10.0.0.1''"
    by (simp_all add: first_twin_def second_twin_def device_def)
  have e: "''10.0.0.1'' \<notin> Address ` set []"
    by simp
  have m: "map (group_addresses (mem s)) (slice_list (collect_groups (groupMap s) [key_A, key_B] None))
          = [[''10.0.0.1''], [''10.0.0.1'']]"
    using groups_addresses [OF s o twins_plain] key_A_neq_B
    by (simp add: members_def twins_def twins_keys a)
  from duplicate_address_plain [OF s o g twins_devices a e] m
  show ?thesis
    using twins_plain o a by (simp add: s g twins_devices binding_def second_twin_def)
qed

text \<open>
  Claim C10 fails on the code in what it says of the groups. In \<open>seeded\<close> the
  first and the second device declare the address \<^verbatim>\<open>a\<close>, and the tag index binds
  \<^verbatim>\<open>a\<close> to the second of them, as the claim says. The first and the third device have
  different keys and extend the template \<^verbatim>\<open>base\<close>, whose address slice has spare
  capacity: \<^verbatim>\<open>thisConfig\<close> is a copy of the struct, so the address slices of both groups
  start as the slice of the template, and both appends write into the cell after the
  template's last address. The address \<^verbatim>\<open>b\<close> of the third device replaces the address
  \<^verbatim>\<open>a\<close> in the group of the first device: that group does not list \<^verbatim>\<open>a\<close>, and
  over all groups \<^verbatim>\<open>a\<close> occurs once although two devices declare it.
\<close>

theorem duplicate_address_overwritten:
  "map Address (Devices seeded) = [''a'', ''a'', ''b''] \<and>
   distinct (map groupKey (Devices seeded)) \<and>
   (case resolve no_slack seeded seeded_heap of
      None \<Rightarrow> False
    | Some s \<Rightarrow> range_order (groupMap s) (map groupKey (Devices seeded))) \<and>
   (case groupDevices no_slack (map groupKey (Devices seeded)) seeded seeded_heap of
      None \<Rightarrow> False
    | Some (groups, tg, h', lg) \<Rightarrow>
        tg ''a'' = Some (binding second_seeded) \<and>
        map (group_addresses h') (slice_list groups)
          = [[''X'', ''Y'', ''Z'', ''b''], [''a''], [''X'', ''Y'', ''Z'', ''b'']] \<and>
        (\<Sum>g\<leftarrow>slice_list groups. count_list (group_addresses h' g) ''a'') = 1 \<and>
        lg = [])"
  by (auto simp add: seeded_def seeded_heap_def seeded_template_def first_seeded_def second_seeded_def
        third_seeded_def groupDevices_def binding_def range_order_def append_group_def
        slice_list_def group_addresses_def run_defs)

subsection \<open>Resolving the same inventory twice\<close>




subsection \<open>The inventory and the groups built from it\<close>

text \<open>
  The code never assigns to an entry of \<^verbatim>\<open>SharedCommonConfigs\<close>, so the headers that the
  entries hold stay the same; and when the template slices are laid out as the decoder
  lays them out, every template shows after the resolution the subscriptions, the
  tag-subscriptions and the addresses that it showed before: an append writes into a new
  array or at an index at or past the length of every template in the array.
\<close>

lemma templates_elements_kept:
  assumes "templates_ok d h"
    and "groupDevices slack ks d h = Some (groups, tg, h', lg)"
    and "SharedCommonConfigs d cid = Some t"
  shows "elems (subscription_arrays h') (Subscriptions t)
           = elems (subscription_arrays h) (Subscriptions t)
         \<and> elems (tagSubscription_arrays h') (TagSubscriptions t)
           = elems (tagSubscription_arrays h) (TagSubscriptions t)
         \<and> elems (string_arrays h') (Addresses t) = elems (string_arrays h) (Addresses t)"
proof -
  from assms(2) obtain s where s: "resolve slack d h = Some s" and h': "h' = mem s"
    by (rule groupDevices_cases)
  have "frame_inv d h s"
    using devices_loop_frame [OF s [unfolded resolve_def] assms(1) frame_start [OF assms(1)]] .
  moreover have "t \<in> ran (SharedCommonConfigs d)"
    using assms(3) by (rule ranI)
  ultimately show ?thesis
    by (simp add: frame_inv_def kept_def h')
qed

lemma shared_template_elements_kept:
  "templates_ok shared_template template_heap \<and>
   SharedCommonConfigs shared_template ''base'' = Some base_template \<and>
   elems (subscription_arrays template_heap) (Subscriptions base_template)
     = [''/system'', ''/cpu'', ''/memory''] \<and>
   (case groupDevices no_slack (map groupKey (Devices shared_template)) shared_template template_heap of
      None \<Rightarrow> False
    | Some (groups, tg, h', lg) \<Rightarrow>
        elems (subscription_arrays h') (Subscriptions base_template)
          = [''/system'', ''/cpu'', ''/memory''] \<and>
        elems (tagSubscription_arrays h') (TagSubscriptions base_template) = [] \<and>
        elems (string_arrays h') (Addresses base_template) = [])"
proof -
  obtain s where s: "resolve no_slack shared_template template_heap = Some s"
    using resolve_total by blast
  note g = groupDevices_resolved [OF s, of "map groupKey (Devices shared_template)"]
  have c: "SharedCommonConfigs shared_template ''base'' = Some base_template"
    by (simp add: shared_template_def no_devices_def)
  have e: "elems (subscription_arrays template_heap) (Subscriptions base_template)
             = [''/system'', ''/cpu'', ''/memory'']"
      "elems (tagSubscription_arrays template_heap) (TagSubscriptions base_template) = []"
      "elems (string_arrays template_heap) (Addresses base_template) = []"
    by (simp_all add: elems_def template_heap_def base_template_def nil_slice_def empty_heap_def)
  from templates_elements_kept [OF shared_template_ok g c] show ?thesis
    using shared_template_ok c by (simp add: g e)
qed

text \<open>
  Claim C7 fails on the code. The statement
  \<^verbatim>\<open>thisConfig := d.SharedCommonConfigs[device.SharedConfig]\<close> copies the struct of the
  template, which holds the slice headers, and not the arrays behind them; \<^verbatim>\<open>append\<close> on
  a header with spare capacity writes into the array of the template. Both devices of
  \<open>shared_template\<close> name the template \<^verbatim>\<open>base\<close>, whose three subscriptions lie in
  an array of capacity four. After the resolution the subscription slices of both groups
  lie in the array of the template, that array holds a fourth subscription, and both
  groups end with \<^verbatim>\<open>/bgp\<close>, which only the second device references: the subscriptions
  of the first device were not appended onto a copy of the template, and the memory of
  the inventory entry has been written.
\<close>

theorem template_array_written:
  "SharedCommonConfigs shared_template ''base'' = Some base_template \<and>
   map dev_SharedConfig (Devices shared_template) = [''base'', ''base''] \<and>
   map (effective_subscriptions shared_template template_heap) (Devices shared_template)
     = [[''/system'', ''/cpu'', ''/memory'', ''/interfaces''],
        [''/system'', ''/cpu'', ''/memory'', ''/bgp'']] \<and>
   cells (subscription_arrays template_heap) (arr (Subscriptions base_template))
     = [''/system'', ''/cpu'', ''/memory''] \<and>
   (case resolve no_slack shared_template template_heap of
      None \<Rightarrow> False
    | Some s \<Rightarrow> range_order (groupMap s) (map groupKey (Devices shared_template))) \<and>
   (case groupDevices no_slack (map groupKey (Devices shared_template)) shared_template
           template_heap of
      None \<Rightarrow> False
    | Some (groups, tg, h', lg) \<Rightarrow>
        map (\<lambda>g. arr (Subscriptions g)) (slice_list groups)
          = [arr (Subscriptions base_template), arr (Subscriptions base_template)] \<and>
        cells (subscription_arrays h') (arr (Subscriptions base_template))
          = [''/system'', ''/cpu'', ''/memory'', ''/bgp''] \<and>
        map (\<lambda>g. elems (subscription_arrays h') (Subscriptions g)) (slice_list groups)
          = [[''/system'', ''/cpu'', ''/memory'', ''/bgp''],
             [''/system'', ''/cpu'', ''/memory'', ''/bgp'']])"
  by (auto simp add: shared_template_def template_heap_def base_template_def groupDevices_def
        effective_subscriptions_def range_order_def append_group_def slice_list_def run_defs)

text \<open>
  Claim C6 fails on the code. The devices \<^verbatim>\<open>A\<close> and \<^verbatim>\<open>B\<close> of \<open>colliding\<close> declare
  the subscription references \<^verbatim>\<open>["a b"]\<close> and \<^verbatim>\<open>["a", "b"]\<close>, which are formatted to the
  same grouping key. Neither reference of \<^verbatim>\<open>B\<close> is in the inventory, so the group of
  \<^verbatim>\<open>B\<close> should have no subscription and two warnings should be logged. The code logs
  nothing and places \<^verbatim>\<open>B\<close> in the group built for \<^verbatim>\<open>A\<close> from the subscription group
  \<^verbatim>\<open>a b\<close>, which \<^verbatim>\<open>B\<close> does not reference.
\<close>

theorem dangling_reference_collision:
  "dev_Subscriptions (device ''B'' [''a'', ''b''] []) = [''a'', ''b''] \<and>
   shared_Subscriptions colliding ''a'' = None \<and>
   shared_Subscriptions colliding ''b'' = None \<and>
   effective_subscriptions colliding empty_heap (device ''B'' [''a'', ''b''] []) = [] \<and>
   groupKey (device ''A'' [''a b''] []) = groupKey (device ''B'' [''a'', ''b''] []) \<and>
   (case resolve no_slack colliding empty_heap of
      None \<Rightarrow> False
    | Some s \<Rightarrow> range_order (groupMap s) [groupKey (device ''B'' [''a'', ''b''] [])]) \<and>
   (case groupDevices no_slack [groupKey (device ''B'' [''a'', ''b''] [])] colliding empty_heap of
      None \<Rightarrow> False
    | Some (groups, tg, h', lg) \<Rightarrow>
        lg = [] \<and>
        map (group_addresses h') (slice_list groups) = [[''A'', ''B'']] \<and>
        map (\<lambda>g. elems (subscription_arrays h') (Subscriptions g)) (slice_list groups)
          = [[''/interfaces'']])"
  by (simp add: colliding_def groupDevices_def effective_subscriptions_def range_order_def
        append_group_def slice_list_def group_addresses_def run_defs)

text \<open>
  A second way in which a group is not built from the references of its device. The
  devices of \<open>shared_template\<close> extend one template whose subscription slice has
  spare capacity. Both appends write into the cell after the template's last element, so
  the group of the first device ends with the subscription of the group that only the
  second device references.
\<close>

lemma shared_template_leak:
  "case resolve no_slack shared_template template_heap of
     None \<Rightarrow> False
   | Some s \<Rightarrow>
       map_option (\<lambda>g. elems (subscription_arrays (mem s)) (Subscriptions g))
         (groupMap s (groupKey (device ''A'' [''g1''] ''base'')))
       = Some [''/system'', ''/cpu'', ''/memory'', ''/bgp''] \<and>
       effective_subscriptions shared_template template_heap (device ''A'' [''g1''] ''base'')
       = [''/system'', ''/cpu'', ''/memory'', ''/interfaces''] \<and>
       cells (subscription_arrays (mem s)) 1 = [''/system'', ''/cpu'', ''/memory'', ''/bgp'']"
  by (simp add: shared_template_def template_heap_def base_template_def
        effective_subscriptions_def run_defs)

text \<open>
  When the keys tell the declared references apart and no template has spare capacity,
  every device finds its address in a group that shows its effective subscriptions and
  tag-subscriptions, and each of its missing references is named in a warning.
\<close>

lemma groups_built_from_references:
  assumes "resolve slack d h = Some s" and "range_order (groupMap s) ks"
    and "groupDevices slack ks d h = Some (groups, tg, h', lg)"
    and "templates_ok d h" and "templates_full d" and "templates_without_addresses d"
    and "key_faithful (Devices d)" and "x \<in> set (Devices d)"
  shows "\<exists>g\<in>set (slice_list groups).
           group_addresses h' g = members (Devices d) (groupKey x)
           \<and> Address x \<in> set (group_addresses h' g)
           \<and> elems (subscription_arrays h') (Subscriptions g) = effective_subscriptions d h x
           \<and> elems (tagSubscription_arrays h') (TagSubscriptions g)
               = effective_tag_subscriptions d h x"
    and "set (device_warnings d x) \<subseteq> set lg"
proof -
  have eq: "groups = collect_groups (groupMap s) ks None" "h' = mem s" "lg = warnings s"
    using assms(3) by (simp_all add: groupDevices_def assms(1))
  have b: "built d h (Devices d) s"
    by (rule resolve_built [OF assms(1,4,5)])
  have a: "grouped (Devices d) s"
    by (rule resolve_grouped [OF assms(1,6)])
  have "groupKey x \<in> dom (groupMap s)"
    using b assms(8) by (simp add: built_def)
  then obtain g where g: "groupMap s (groupKey x) = Some g"
    by blast
  have 1: "g \<in> set (slice_list groups)"
    unfolding eq by (rule collected_group [OF assms(2) g])
  have 2: "group_addresses h' g = members (Devices d) (groupKey x)"
    using a g by (simp add: grouped_def addresses_ok_def group_addresses_def eq)
  have 3: "Address x \<in> set (members (Devices d) (groupKey x))"
    using assms(8) by (force simp: members_def)
  have 4: "elems (subscription_arrays h') (Subscriptions g) = effective_subscriptions d h x
      \<and> elems (tagSubscription_arrays h') (TagSubscriptions g) = effective_tag_subscriptions d h x"
  proof -
    have "creator (Devices d) (groupKey x) \<noteq> None"
      using assms(8) by (simp add: creator_None)
    then obtain c where c: "creator (Devices d) (groupKey x) = Some c"
      by blast
    from creator_Some [OF c] have "declared c = declared x"
      by (intro key_faithfulD [OF assms(7) _ assms(8)]) simp_all
    from built_group [OF b g c] effective_declared [OF this, of d h] show ?thesis
      by (simp add: eq)
  qed
  from 1 2 3 4 show "\<exists>g\<in>set (slice_list groups).
           group_addresses h' g = members (Devices d) (groupKey x)
           \<and> Address x \<in> set (group_addresses h' g)
           \<and> elems (subscription_arrays h') (Subscriptions g) = effective_subscriptions d h x
           \<and> elems (tagSubscription_arrays h') (TagSubscriptions g)
               = effective_tag_subscriptions d h x"
    by (intro bexI [of _ g]) simp_all
  show "set (device_warnings d x) \<subseteq> set lg"
    unfolding eq by (rule missing_reference_warned [OF assms(1,7,8)])
qed

end
